theory Spec2Isabelle
  imports Complex_Main "HOL-Library.AList" "HOL-Library.Log_Nat"
begin

section \<open>Numbers\<close>

text \<open>
  A JavaScript number is an IEEE 754 double: a finite value, which is a rational number,
  one of the two infinities, or \<^verbatim>\<open>NaN\<close>. An arithmetic operation computes the exact result
  and rounds it to the nearest double, a tie going to the double with the even mantissa.
  For a positive \<open>x\<close>, \<open>exponent x\<close> is the \<open>e\<close> for which \<open>x\<close> is at least \<open>2\<close> to the power
  \<open>e\<close> and less than \<open>2\<close> to the power \<open>e + 1\<close>; the doubles around \<open>x\<close> are the multiples
  of \<open>2\<close> to the power \<open>e - 52\<close>, and of \<open>2\<close> to the power \<open>- 1074\<close> below the normal
  range. A result that rounds to \<open>2 ^ 1024\<close> or beyond is an infinity. Zero has no sign here: the
  generator never divides, and every other operation it applies treats the two zeros of
  IEEE 754 alike.
\<close>

datatype number = Finite rat | PosInf | NegInf | NaN

definition round_half_even :: "rat \<Rightarrow> int" where
  "round_half_even q =
     (let f = \<lfloor>q\<rfloor>; d = q - of_int f
      in if d < 1 / 2 then f else if 1 / 2 < d then f + 1 else if even f then f else f + 1)"

definition exponent :: "rat \<Rightarrow> int" where
  "exponent x =
     (let (p, q) = quotient_of x; c = bitlen p - bitlen q
      in if 2 powi c \<le> x then c else c - 1)"

text \<open>The doubles around \<open>x\<close> are the multiples of \<open>2\<close> to the power \<open>grid x\<close>.\<close>

definition grid :: "rat \<Rightarrow> int" where
  "grid x = max (exponent \<bar>x\<bar>) (- 1022) - 52"

definition round_double :: "rat \<Rightarrow> rat" where
  "round_double x =
     (if x = 0 then 0
      else of_int (round_half_even (x / 2 powi grid x)) * 2 powi grid x)"

definition fl :: "rat \<Rightarrow> number" where
  "fl x =
     (let y = round_double x
      in if 2 ^ 1024 \<le> y then PosInf else if y \<le> - (2 ^ 1024) then NegInf else Finite y)"

text \<open>The rationals that are doubles.\<close>

definition is_double :: "rat \<Rightarrow> bool" where
  "is_double x \<longleftrightarrow> fl x = Finite x"

text \<open>The operators \<^verbatim>\<open>+\<close>, \<^verbatim>\<open>-\<close>, \<^verbatim>\<open>*\<close> and \<^verbatim>\<open><\<close> on numbers, and \<^verbatim>\<open>Math.floor\<close>.\<close>

fun num_add :: "number \<Rightarrow> number \<Rightarrow> number" where
  "num_add (Finite a) (Finite b) = fl (a + b)"
| "num_add NaN y = NaN"
| "num_add x NaN = NaN"
| "num_add PosInf NegInf = NaN"
| "num_add NegInf PosInf = NaN"
| "num_add PosInf y = PosInf"
| "num_add x PosInf = PosInf"
| "num_add NegInf y = NegInf"
| "num_add x NegInf = NegInf"

fun num_neg :: "number \<Rightarrow> number" where
  "num_neg (Finite a) = Finite (- a)"
| "num_neg PosInf = NegInf"
| "num_neg NegInf = PosInf"
| "num_neg NaN = NaN"

definition num_sub :: "number \<Rightarrow> number \<Rightarrow> number" where
  "num_sub x y = num_add x (num_neg y)"

text \<open>The sign of a number that is not \<^verbatim>\<open>NaN\<close>: \<open>1\<close>, \<open>0\<close> or \<open>- 1\<close>.\<close>

fun num_sgn :: "number \<Rightarrow> int" where
  "num_sgn (Finite a) = (if a = 0 then 0 else if 0 < a then 1 else - 1)"
| "num_sgn PosInf = 1"
| "num_sgn NegInf = - 1"
| "num_sgn NaN = 0"

fun num_mul :: "number \<Rightarrow> number \<Rightarrow> number" where
  "num_mul (Finite a) (Finite b) = fl (a * b)"
| "num_mul NaN y = NaN"
| "num_mul x NaN = NaN"
| "num_mul x y =
     (if num_sgn x * num_sgn y = 0 then NaN
      else if 0 < num_sgn x * num_sgn y then PosInf else NegInf)"

fun num_less :: "number \<Rightarrow> number \<Rightarrow> bool" where
  "num_less (Finite a) (Finite b) = (a < b)"
| "num_less NaN y = False"
| "num_less x NaN = False"
| "num_less x NegInf = False"
| "num_less PosInf y = False"
| "num_less x y = True"

fun Math_floor :: "number \<Rightarrow> number" where
  "Math_floor (Finite a) = Finite (of_int \<lfloor>a\<rfloor>)"
| "Math_floor x = x"

section \<open>Values and schema nodes\<close>

text \<open>
  The values that \<^verbatim>\<open>generateRandomData\<close> returns. An object is the sequence of its own
  properties in enumeration order.
\<close>

datatype jsval =
    JUndefined
  | JNull
  | JBool bool
  | JNum number
  | JStr string
  | JArr "jsval list"
  | JObj "(string \<times> jsval) list"

text \<open>
  A schema node is the object the generator receives, with the attributes the code reads.
  An attribute that the object does not have (\<^verbatim>\<open>undefined\<close>) is \<open>None\<close>. The attributes
  \<^verbatim>\<open>minLength\<close>, \<^verbatim>\<open>maxLength\<close>, \<^verbatim>\<open>minItems\<close> and \<^verbatim>\<open>maxItems\<close> are non-negative
  integers, \<^verbatim>\<open>minimum\<close> and \<^verbatim>\<open>maximum\<close> are finite numbers, \<^verbatim>\<open>enum\<close> is an array of
  values, \<^verbatim>\<open>properties\<close> lists the declared properties, all of them own properties, in the
  order \<^verbatim>\<open>for ... in\<close> visits them. A node is all that a schema read from JSON text can be;
  the numbers in it are doubles, which the statements below say where they need it.
\<close>

datatype schema = Schema
  (schema_enum: "jsval list option")
  (schema_type: "string option")
  (schema_minimum: "rat option")
  (schema_maximum: "rat option")
  (schema_minLength: "nat option")
  (schema_maxLength: "nat option")
  (schema_minItems: "nat option")
  (schema_maxItems: "nat option")
  (schema_uniqueItems: "bool option")
  (schema_items: "schema option")
  (schema_properties: "(string \<times> schema) list option")
  (schema_required: "string list option")

text \<open>The exception the generator can raise on such a node: reading an attribute of
  \<^verbatim>\<open>undefined\<close>, when an array node has no \<^verbatim>\<open>items\<close>, and calling what is not a function,
  when a declared property is named \<^verbatim>\<open>hasOwnProperty\<close>.\<close>

datatype error = TypeError

text \<open>
  \<^verbatim>\<open>Math.random()\<close> is modelled by a fixed sequence of draws and the position of the next
  one; a call returns the draw at the position and advances it. \<^verbatim>\<open>Math.random()\<close> returns
  a double that is at least \<open>0\<close> and less than \<open>1\<close>: \<open>unit_draws\<close> says this of a whole
  sequence. A generator returns \<open>None\<close> when it runs forever, \<open>Some (Inl e)\<close> when it
  throws, and \<open>Some (Inr (v, pos))\<close> when it returns \<open>v\<close> with the next draw at \<open>pos\<close>.
\<close>

type_synonym rng = "nat \<Rightarrow> rat"

type_synonym 'a outcome = "(error + 'a \<times> nat) option"

definition Math_random :: "rng \<Rightarrow> nat \<Rightarrow> rat \<times> nat" where
  "Math_random rng pos = (rng pos, Suc pos)"

definition unit_draws :: "rng \<Rightarrow> bool" where
  "unit_draws rng \<longleftrightarrow> (\<forall>i. is_double (rng i) \<and> 0 \<le> rng i \<and> rng i < 1)"

lemma case_sum_mono [partial_function_mono]:
  "(\<And>x. mono_option (\<lambda>f. F f x)) \<Longrightarrow> (\<And>y. mono_option (\<lambda>f. G f y)) \<Longrightarrow>
   mono_option (\<lambda>f. case s of Inl x \<Rightarrow> F f x | Inr y \<Rightarrow> G f y)"
  by (cases s) auto

lemma case_option_mono [partial_function_mono]:
  "mono_option F \<Longrightarrow> (\<And>y. mono_option (\<lambda>f. G f y)) \<Longrightarrow>
   mono_option (\<lambda>f. case s of None \<Rightarrow> F f | Some y \<Rightarrow> G f y)"
  by (cases s) auto

lemma case_prod_mono [partial_function_mono]:
  "(\<And>x y. mono_option (\<lambda>f. F f x y)) \<Longrightarrow>
   mono_option (\<lambda>f. case p of (x, y) \<Rightarrow> F f x y)"
  by (cases p) auto

section \<open>Scalar generators\<close>

definition getRandomInteger :: "rng \<Rightarrow> number \<Rightarrow> number \<Rightarrow> nat \<Rightarrow> number \<times> nat" where
  "getRandomInteger rng mn mx pos =
     (let (r, pos') = Math_random rng pos
      in (num_add (Math_floor (num_mul (Finite r) (num_add (num_sub mx mn) (Finite 1)))) mn, pos'))"

definition getRandomNumber :: "rng \<Rightarrow> number \<Rightarrow> number \<Rightarrow> nat \<Rightarrow> number \<times> nat" where
  "getRandomNumber rng mn mx pos =
     (let (r, pos') = Math_random rng pos
      in (num_add (num_mul (Finite r) (num_sub mx mn)) mn, pos'))"

definition chars :: string where
  "chars = ''ABCDEFGHIJKLMNOPQRSTUVWXYZabcdefghijklmnopqrstuvwxyz0123456789''"

text \<open>\<^verbatim>\<open>s.charAt(i)\<close>: the position is \<open>i\<close> without its fraction, and \<open>0\<close> for \<^verbatim>\<open>NaN\<close>.\<close>

definition charAt :: "string \<Rightarrow> number \<Rightarrow> string" where
  "charAt s i =
     (case i of
        Finite q \<Rightarrow> (let p = (if 0 \<le> q then \<lfloor>q\<rfloor> else \<lceil>q\<rceil>)
                     in if 0 \<le> p \<and> p < int (length s) then [s ! nat p] else [])
      | NaN \<Rightarrow> take 1 s
      | _ \<Rightarrow> [])"

text \<open>
  The loop of \<^verbatim>\<open>getRandomString\<close>. Its counter is a number: it counts exactly up to
  \<open>2\<^sup>5\<^sup>3\<close>, where adding \<open>1\<close> changes it no more, so the loop never ends for a length above
  that (\<open>None\<close>). The limit an engine puts on the length of a string is not modelled.
\<close>

partial_function (option) getRandomString_loop ::
  "rng \<Rightarrow> number \<Rightarrow> number \<Rightarrow> string \<Rightarrow> nat \<Rightarrow> (string \<times> nat) option" where
  "getRandomString_loop rng len i result pos =
     (if num_less i len then
        (let (r, pos') = Math_random rng pos
         in getRandomString_loop rng len (num_add i (Finite 1))
              (result @ charAt chars (Math_floor (num_mul (Finite r) (Finite (of_nat (length chars))))))
              pos')
      else Some (result, pos))"

definition getRandomString :: "rng \<Rightarrow> number \<Rightarrow> nat \<Rightarrow> (string \<times> nat) option" where
  "getRandomString rng len pos = getRandomString_loop rng len (Finite 0) [] pos"

definition getRandomBoolean :: "rng \<Rightarrow> nat \<Rightarrow> bool \<times> nat" where
  "getRandomBoolean rng pos =
     (let (r, pos') = Math_random rng pos in (num_less (Finite r) (fl (1 / 2)), pos'))"

section \<open>The uniqueness test of arrays\<close>

text \<open>
  \<^verbatim>\<open>generateArray\<close> compares two items by the texts \<^verbatim>\<open>JSON.stringify\<close> gives them.
  \<^verbatim>\<open>JSON.stringify(undefined)\<close> is \<^verbatim>\<open>undefined\<close> (\<open>None\<close> here); inside an array
  \<^verbatim>\<open>undefined\<close> is written \<^verbatim>\<open>null\<close>, inside an object the property is left out. The
  text of a finite number is the built-in number-to-string conversion, a parameter of the
  model; a number that is not finite is written \<^verbatim>\<open>null\<close>.
\<close>

definition hexDigit :: "nat \<Rightarrow> char" where
  "hexDigit n = ''0123456789abcdef'' ! (n mod 16)"

definition quoteChar :: "char \<Rightarrow> string" where
  "quoteChar c =
     (if c = CHR 0x22 then [CHR 0x5C, CHR 0x22]
      else if c = CHR 0x5C then [CHR 0x5C, CHR 0x5C]
      else if c = CHR 0x08 then [CHR 0x5C, CHR ''b'']
      else if c = CHR 0x0C then [CHR 0x5C, CHR ''f'']
      else if c = CHR 0x0A then [CHR 0x5C, CHR ''n'']
      else if c = CHR 0x0D then [CHR 0x5C, CHR ''r'']
      else if c = CHR 0x09 then [CHR 0x5C, CHR ''t'']
      else if of_char c < (32::nat)
        then [CHR 0x5C, CHR ''u'', CHR ''0'', CHR ''0'',
              hexDigit (of_char c div 16), hexDigit (of_char c)]
      else [c])"

definition quote :: "string \<Rightarrow> string" where
  "quote s = [CHR 0x22] @ concat (map quoteChar s) @ [CHR 0x22]"

fun join :: "string \<Rightarrow> string list \<Rightarrow> string" where
  "join sep [] = []"
| "join sep [x] = x"
| "join sep (x # y # ys) = x @ sep @ join sep (y # ys)"

fun JSON_stringify :: "(rat \<Rightarrow> string) \<Rightarrow> jsval \<Rightarrow> string option" where
  "JSON_stringify numberToString JUndefined = None"
| "JSON_stringify numberToString JNull = Some ''null''"
| "JSON_stringify numberToString (JBool b) = Some (if b then ''true'' else ''false'')"
| "JSON_stringify numberToString (JNum n) =
     Some (case n of Finite q \<Rightarrow> numberToString q | _ \<Rightarrow> ''null'')"
| "JSON_stringify numberToString (JStr s) = Some (quote s)"
| "JSON_stringify numberToString (JArr xs) =
     Some (''['' @ join '','' (map (\<lambda>x. case JSON_stringify numberToString x of
                                         None \<Rightarrow> ''null'' | Some t \<Rightarrow> t) xs) @ '']'')"
| "JSON_stringify numberToString (JObj kvs) =
     Some (''{'' @ join '','' (concat (map (\<lambda>(k, v). case JSON_stringify numberToString v of
                                         None \<Rightarrow> [] | Some t \<Rightarrow> [quote k @ '':'' @ t]) kvs)) @ ''}'')"

text \<open>
  Equality of two values by their structure, which is what distinguishes two values of
  JSON: two arrays are equal when they have the same length and equal elements at every
  index, two objects when they have the same keys and equal values at every key, in
  whatever order the keys are enumerated.
\<close>

function (sequential) structurally_equal :: "jsval \<Rightarrow> jsval \<Rightarrow> bool" where
  "structurally_equal (JArr xs) (JArr ys) =
     (length xs = length ys \<and> list_all (\<lambda>(x, y). structurally_equal x y) (zip xs ys))"
| "structurally_equal (JObj kvs) (JObj kvs') =
     (set (map fst kvs) = set (map fst kvs')
      \<and> list_all (\<lambda>(k, v). list_all (\<lambda>(k', v'). if k = k' then structurally_equal v v' else True) kvs') kvs)"
| "structurally_equal x y = (x = y)"
  by pat_completeness auto
termination
proof (relation "measure (\<lambda>(x, y). size x)", goal_cases)
  case 1
  show ?case by simp
next
  case (2 xs ys z x y)
  then have "x \<in> set xs" by (auto dest: set_zip_leftD)
  then have "size x \<le> size_list size xs" by (rule size_list_estimation') simp
  then show ?case by simp
next
  case (3 kvs kvs' kv k v kv' k' v')
  then have "(k, v) \<in> set kvs" by simp
  then have "size_prod (\<lambda>_. 0) size (k, v) \<le> size_list (size_prod (\<lambda>_. 0) size) kvs"
    by (rule size_list_estimation') simp
  then show ?case by simp
qed

section \<open>Arrays and objects\<close>

text \<open>
  The \<^verbatim>\<open>while\<close> loop of \<^verbatim>\<open>generateArray\<close> has no bound on its iterations, so it is a
  partial function: \<open>None\<close> is the loop that never ends. \<open>generateItem\<close> stands for
  \<^verbatim>\<open>generateData(itemsSchema)\<close> started at a position of the draws.
\<close>

partial_function (option) generateArray_loop ::
  "(rat \<Rightarrow> string) \<Rightarrow> (nat \<Rightarrow> jsval outcome) \<Rightarrow> bool \<Rightarrow> number \<Rightarrow> jsval list \<Rightarrow> nat
     \<Rightarrow> (error + jsval list \<times> nat) option" where
  "generateArray_loop numberToString generateItem uniqueItems len result pos =
     (if num_less (Finite (of_nat (length result))) len then
        (case generateItem pos of
           None \<Rightarrow> None
         | Some (Inl e) \<Rightarrow> Some (Inl e)
         | Some (Inr (item, pos')) \<Rightarrow>
             if uniqueItems then
               (let isUnique = \<not> list_ex (\<lambda>existingItem.
                      JSON_stringify numberToString existingItem = JSON_stringify numberToString item) result
                in if isUnique
                   then generateArray_loop numberToString generateItem uniqueItems len (result @ [item]) pos'
                   else generateArray_loop numberToString generateItem uniqueItems len result pos')
             else generateArray_loop numberToString generateItem uniqueItems len (result @ [item]) pos')
      else Some (Inr (result, pos)))"

lemma generateArray_loop_cong [fundef_cong]:
  "(\<And>p. generateItem p = generateItem' p) \<Longrightarrow>
   generateArray_loop ns generateItem u n r pos = generateArray_loop ns generateItem' u n r pos"
proof -
  assume "\<And>p. generateItem p = generateItem' p"
  then have "generateItem = generateItem'" by (simp add: fun_eq_iff)
  then show ?thesis by simp
qed

text \<open>\<^verbatim>\<open>enumValues[i]\<close>: the element when \<open>i\<close> is an index of the array, \<^verbatim>\<open>undefined\<close>
  otherwise.\<close>

definition js_index :: "jsval list \<Rightarrow> number \<Rightarrow> jsval" where
  "js_index xs i =
     (case i of
        Finite q \<Rightarrow> (if q = of_int \<lfloor>q\<rfloor> \<and> 0 \<le> q \<and> q < of_nat (length xs) then xs ! nat \<lfloor>q\<rfloor>
                     else JUndefined)
      | _ \<Rightarrow> JUndefined)"

text \<open>
  \<^verbatim>\<open>properties.hasOwnProperty(key)\<close> looks the method up on \<^verbatim>\<open>properties\<close> itself first.
  A declared property named \<^verbatim>\<open>hasOwnProperty\<close> hides the method of \<^verbatim>\<open>Object.prototype\<close>
  behind a schema node, which is not a function, and the call throws.
\<close>

definition hasOwnProperty :: "(string \<times> schema) list \<Rightarrow> string \<Rightarrow> error + bool" where
  "hasOwnProperty properties key =
     (if ''hasOwnProperty'' \<in> set (map fst properties) then Inl TypeError
      else Inr (key \<in> set (map fst properties)))"

text \<open>
  \<^verbatim>\<open>result[key] = v\<close> on the object under construction, which was created by \<^verbatim>\<open>{}\<close>. The
  key \<^verbatim>\<open>__proto__\<close> is an accessor that the object inherits from \<^verbatim>\<open>Object.prototype\<close>:
  the assignment calls its setter and gives the object no property of its own.
\<close>

definition set_property :: "(string \<times> jsval) list \<Rightarrow> string \<Rightarrow> jsval \<Rightarrow> (string \<times> jsval) list" where
  "set_property result key v = (if key = ''__proto__'' then result else AList.update key v result)"

definition MIN_SAFE_INTEGER :: rat where
  "MIN_SAFE_INTEGER = - (2 ^ 53 - 1)"

definition MAX_SAFE_INTEGER :: rat where
  "MAX_SAFE_INTEGER = 2 ^ 53 - 1"

lemma size_schema_items: "schema_items schema = Some itemsSchema \<Longrightarrow> size itemsSchema < size schema"
  by (cases schema) simp

lemma size_schema_properties:
  "size_list (\<lambda>(k, s). size s) (case schema_properties schema of None \<Rightarrow> [] | Some ps \<Rightarrow> ps) < size schema"
proof (cases schema)
  case (Schema e t mn mx ml xl mi xi u i ps r)
  have le: "size_list (\<lambda>(k, s). size s) qs \<le> size_list (size_prod (\<lambda>_. 0) size) qs"
    for qs :: "(string \<times> schema) list"
    by (rule size_list_pointwise) auto
  show ?thesis
  proof (cases ps)
    case None
    with Schema show ?thesis by simp
  next
    case (Some qs)
    with Schema le [of qs] show ?thesis by simp
  qed
qed

text \<open>
  The dispatcher and the two structured generators call each other.
  \<open>generateObject_loop\<close> is the \<^verbatim>\<open>for (const key in properties)\<close> loop, over the
  properties still to visit. \<^verbatim>\<open>isRequired || Math.random() < 0.7\<close> draws only when the
  property is not required; \<^verbatim>\<open>0.7\<close> is the double nearest to \<open>7 / 10\<close>.
\<close>

function generateData :: "(rat \<Rightarrow> string) \<Rightarrow> rng \<Rightarrow> schema \<Rightarrow> nat \<Rightarrow> jsval outcome"
  and generateArray :: "(rat \<Rightarrow> string) \<Rightarrow> rng \<Rightarrow> schema \<Rightarrow> nat \<Rightarrow> jsval outcome"
  and generateObject :: "(rat \<Rightarrow> string) \<Rightarrow> rng \<Rightarrow> schema \<Rightarrow> nat \<Rightarrow> jsval outcome"
  and generateObject_loop :: "(rat \<Rightarrow> string) \<Rightarrow> rng \<Rightarrow> (string \<times> schema) list \<Rightarrow> string list
        \<Rightarrow> (string \<times> schema) list \<Rightarrow> (string \<times> jsval) list \<Rightarrow> nat \<Rightarrow> jsval outcome"
where
  "generateData ns rng schema pos =
     (case schema_enum schema of
        Some enumValues \<Rightarrow>
          (let (i, pos') = getRandomInteger rng (Finite 0)
                             (num_sub (Finite (of_nat (length enumValues))) (Finite 1)) pos
           in Some (Inr (js_index enumValues i, pos')))
      | None \<Rightarrow>
          (if schema_type schema = Some ''integer'' then
             (let intMin = (case schema_minimum schema of Some m \<Rightarrow> m | None \<Rightarrow> MIN_SAFE_INTEGER);
                  intMax = (case schema_maximum schema of Some m \<Rightarrow> m | None \<Rightarrow> MAX_SAFE_INTEGER);
                  (v, pos') = getRandomInteger rng (Finite intMin) (Finite intMax) pos
              in Some (Inr (JNum v, pos')))
           else if schema_type schema = Some ''number'' then
             (let numMin = (case schema_minimum schema of Some m \<Rightarrow> m | None \<Rightarrow> - (10 ^ 10));
                  numMax = (case schema_maximum schema of Some m \<Rightarrow> m | None \<Rightarrow> 10 ^ 10);
                  (v, pos') = getRandomNumber rng (Finite numMin) (Finite numMax) pos
              in Some (Inr (JNum v, pos')))
           else if schema_type schema = Some ''string'' then
             (let minLength = (case schema_minLength schema of Some n \<Rightarrow> n | None \<Rightarrow> 0);
                  maxLength = (case schema_maxLength schema of Some n \<Rightarrow> n | None \<Rightarrow> minLength + 20);
                  (len, pos') = getRandomInteger rng (Finite (of_nat minLength)) (Finite (of_nat maxLength)) pos
              in case getRandomString rng len pos' of
                   None \<Rightarrow> None
                 | Some (s, pos'') \<Rightarrow> Some (Inr (JStr s, pos'')))
           else if schema_type schema = Some ''boolean'' then
             (let (b, pos') = getRandomBoolean rng pos in Some (Inr (JBool b, pos')))
           else if schema_type schema = Some ''array'' then generateArray ns rng schema pos
           else if schema_type schema = Some ''object'' then generateObject ns rng schema pos
           else Some (Inr (JNull, pos))))"
| "generateArray ns rng schema pos =
     (let minItems = (case schema_minItems schema of Some n \<Rightarrow> n | None \<Rightarrow> 0);
          maxItems = (case schema_maxItems schema of Some n \<Rightarrow> n | None \<Rightarrow> minItems + 10)
      in if minItems = 0 \<and> maxItems = 0 then Some (Inr (JArr [], pos))
         else
           (let uniqueItems = (case schema_uniqueItems schema of Some b \<Rightarrow> b | None \<Rightarrow> False);
                (len, pos') = getRandomInteger rng (Finite (of_nat minItems)) (Finite (of_nat maxItems)) pos;
                generateItem = (\<lambda>p. case schema_items schema of
                                   None \<Rightarrow> Some (Inl TypeError)
                                 | Some itemsSchema \<Rightarrow> generateData ns rng itemsSchema p)
            in case generateArray_loop ns generateItem uniqueItems len [] pos' of
                 None \<Rightarrow> None
               | Some (Inl e) \<Rightarrow> Some (Inl e)
               | Some (Inr (result, pos'')) \<Rightarrow> Some (Inr (JArr result, pos''))))"
| "generateObject ns rng schema pos =
     (let properties = (case schema_properties schema of Some ps \<Rightarrow> ps | None \<Rightarrow> []);
          required = (case schema_required schema of Some ks \<Rightarrow> ks | None \<Rightarrow> [])
      in generateObject_loop ns rng properties required properties [] pos)"
| "generateObject_loop ns rng properties required [] result pos = Some (Inr (JObj result, pos))"
| "generateObject_loop ns rng properties required ((key, propSchema) # rest) result pos =
     (case hasOwnProperty properties key of
        Inl e \<Rightarrow> Some (Inl e)
      | Inr own \<Rightarrow>
          if own then
            (let isRequired = (key \<in> set required);
                 (include, pos') = (if isRequired then (True, pos)
                                    else (let (r, p) = Math_random rng pos
                                          in (num_less (Finite r) (fl (7 / 10)), p)))
             in if include then
                  (case generateData ns rng propSchema pos' of
                     None \<Rightarrow> None
                   | Some (Inl e) \<Rightarrow> Some (Inl e)
                   | Some (Inr (v, pos'')) \<Rightarrow>
                       generateObject_loop ns rng properties required rest (set_property result key v) pos'')
                else generateObject_loop ns rng properties required rest result pos')
          else generateObject_loop ns rng properties required rest result pos)"
  by pat_completeness auto
termination
  apply (relation "measure (\<lambda>x. case x of
      Inl (Inl (ns, rng, s, pos)) \<Rightarrow> 2 * size s + 1
    | Inl (Inr (ns, rng, s, pos)) \<Rightarrow> 2 * size s
    | Inr (Inl (ns, rng, s, pos)) \<Rightarrow> 2 * size s
    | Inr (Inr (ns, rng, props, req, ps, res, pos)) \<Rightarrow> 2 * size_list (\<lambda>(k, s). size s) ps + 1)")
  subgoal by simp
  subgoal by simp
  subgoal by simp
  subgoal for ns rng schema pos minItems maxItems uniqueItems x len pos' p itemsSchema
    using size_schema_items [of schema itemsSchema] by simp
  subgoal for ns rng schema pos properties required
    using size_schema_properties [of schema] by simp
  subgoal by simp
  subgoal by simp
  subgoal by simp
  subgoal by simp
  done

declare generateData.simps [simp del] generateArray.simps [simp del]
  generateObject.simps [simp del]

definition generateRandomData :: "(rat \<Rightarrow> string) \<Rightarrow> rng \<Rightarrow> schema \<Rightarrow> nat \<Rightarrow> jsval outcome" where
  "generateRandomData ns rng schema pos = generateData ns rng schema pos"

section \<open>The generator over a store\<close>

text \<open>
  A second model of the same functions, for what generation does to the objects it is given.
  Arrays and objects, the schema nodes among them, are cells of a store and a value refers
  to a cell by its address; an allocation appends a cell. \<^verbatim>\<open>result.push(item)\<close> and
  \<^verbatim>\<open>result[key] = v\<close> are the two writes of the source. Attributes are read from the
  cells as the code reads them; where the code would coerce a value of an unexpected kind
  (a bound that is not a number, an \<^verbatim>\<open>enum\<close> that is not an array) the model stops with
  \<open>Unsupported\<close>. Every call uses one unit of fuel, \<open>None\<close> is a run that needs more.
\<close>

datatype hval = HUndefined | HNull | HBool bool | HNum number | HStr string | HRef nat

datatype cell = CArr "hval list" | CObj "(string \<times> hval) list"

type_synonym heap = "cell list"

datatype herror = Thrown error | Unsupported

type_synonym 'a hresult = "((herror + 'a) \<times> heap \<times> nat) option"

text \<open>The truth value of a value in \<^verbatim>\<open>if (x)\<close> and \<^verbatim>\<open>x || y\<close>.\<close>

definition truthy :: "hval \<Rightarrow> bool" where
  "truthy v = (case v of HUndefined \<Rightarrow> False | HNull \<Rightarrow> False | HBool b \<Rightarrow> b
                | HNum n \<Rightarrow> n \<noteq> Finite 0 \<and> n \<noteq> NaN | HStr s \<Rightarrow> s \<noteq> [] | HRef a \<Rightarrow> True)"

text \<open>\<^verbatim>\<open>obj.name\<close> for an \<open>obj\<close> that is neither \<^verbatim>\<open>undefined\<close> nor \<^verbatim>\<open>null\<close>.\<close>

definition get_property :: "heap \<Rightarrow> hval \<Rightarrow> string \<Rightarrow> hval" where
  "get_property h obj name =
     (case obj of
        HRef a \<Rightarrow> (if a < length h
                   then (case h ! a of
                           CObj kvs \<Rightarrow> (case map_of kvs name of Some v \<Rightarrow> v | None \<Rightarrow> HUndefined)
                         | CArr xs \<Rightarrow> HUndefined)
                   else HUndefined)
      | _ \<Rightarrow> HUndefined)"

text \<open>\<^verbatim>\<open>v !== undefined ? v : d\<close>, for a numeric attribute.\<close>

definition number_or :: "hval \<Rightarrow> number \<Rightarrow> herror + number" where
  "number_or v d = (case v of HUndefined \<Rightarrow> Inr d | HNum n \<Rightarrow> Inr n | _ \<Rightarrow> Inl Unsupported)"

definition array_elements :: "heap \<Rightarrow> hval \<Rightarrow> herror + hval list" where
  "array_elements h v =
     (case v of
        HRef a \<Rightarrow> (if a < length h then (case h ! a of CArr xs \<Rightarrow> Inr xs | CObj kvs \<Rightarrow> Inl Unsupported)
                   else Inl Unsupported)
      | _ \<Rightarrow> Inl Unsupported)"

text \<open>The keys that \<^verbatim>\<open>for (const key in properties)\<close> visits.\<close>

definition own_keys :: "heap \<Rightarrow> hval \<Rightarrow> herror + string list" where
  "own_keys h v =
     (case v of
        HRef a \<Rightarrow> (if a < length h then (case h ! a of CObj kvs \<Rightarrow> Inr (map fst kvs) | CArr xs \<Rightarrow> Inl Unsupported)
                   else Inl Unsupported)
      | _ \<Rightarrow> Inl Unsupported)"

text \<open>\<^verbatim>\<open>required.includes(key)\<close>, with \<^verbatim>\<open>required\<close> the attribute or, when it is falsy, an
  empty array.\<close>

definition array_includes :: "heap \<Rightarrow> hval \<Rightarrow> string \<Rightarrow> herror + bool" where
  "array_includes h required key =
     (if truthy required
      then (case array_elements h required of Inl e \<Rightarrow> Inl e | Inr xs \<Rightarrow> Inr (HStr key \<in> set xs))
      else Inr False)"

definition index_h :: "hval list \<Rightarrow> number \<Rightarrow> hval" where
  "index_h xs i =
     (case i of
        Finite q \<Rightarrow> (if q = of_int \<lfloor>q\<rfloor> \<and> 0 \<le> q \<and> q < of_nat (length xs) then xs ! nat \<lfloor>q\<rfloor>
                     else HUndefined)
      | _ \<Rightarrow> HUndefined)"

definition push :: "heap \<Rightarrow> nat \<Rightarrow> hval \<Rightarrow> heap" where
  "push h a v = (case h ! a of CArr xs \<Rightarrow> h[a := CArr (xs @ [v])] | CObj kvs \<Rightarrow> h)"

text \<open>\<^verbatim>\<open>result[key] = v\<close>, for a \<^verbatim>\<open>result\<close> created by \<^verbatim>\<open>{}\<close>. An assignment to
  \<^verbatim>\<open>__proto__\<close> calls the setter inherited from \<^verbatim>\<open>Object.prototype\<close>; it can change the
  prototype of \<^verbatim>\<open>result\<close>, which is not part of a cell, and writes no property.\<close>

definition assign :: "heap \<Rightarrow> nat \<Rightarrow> string \<Rightarrow> hval \<Rightarrow> heap" where
  "assign h a key v =
     (if key = ''__proto__'' then h
      else (case h ! a of CObj kvs \<Rightarrow> h[a := CObj (AList.update key v kvs)] | CArr xs \<Rightarrow> h))"

text \<open>\<^verbatim>\<open>properties.hasOwnProperty(key)\<close>: a property of \<^verbatim>\<open>properties\<close> with the name
  \<^verbatim>\<open>hasOwnProperty\<close> is called in place of the method, and no value of the store is a
  function.\<close>

definition hasOwnProperty_h :: "heap \<Rightarrow> hval \<Rightarrow> string \<Rightarrow> herror + bool" where
  "hasOwnProperty_h h properties key =
     (case own_keys h properties of
        Inl e \<Rightarrow> Inl e
      | Inr keys \<Rightarrow> if ''hasOwnProperty'' \<in> set keys then Inl (Thrown TypeError)
                    else Inr (key \<in> set keys))"

text \<open>
  \<^verbatim>\<open>JSON.stringify\<close> follows references; it throws on a cyclic value. A value that is
  not cyclic is nested less deep than the store has cells.
\<close>

fun reify :: "nat \<Rightarrow> heap \<Rightarrow> hval \<Rightarrow> jsval option" where
  "reify d h HUndefined = Some JUndefined"
| "reify d h HNull = Some JNull"
| "reify d h (HBool b) = Some (JBool b)"
| "reify d h (HNum n) = Some (JNum n)"
| "reify d h (HStr s) = Some (JStr s)"
| "reify 0 h (HRef a) = None"
| "reify (Suc d) h (HRef a) =
     (if a < length h then
        (case h ! a of
           CArr xs \<Rightarrow> map_option JArr (those (map (reify d h) xs))
         | CObj kvs \<Rightarrow> map_option JObj (those (map (\<lambda>(k, v). map_option (Pair k) (reify d h v)) kvs)))
      else None)"

definition stringify_h :: "(rat \<Rightarrow> string) \<Rightarrow> heap \<Rightarrow> hval \<Rightarrow> herror + string option" where
  "stringify_h ns h v =
     (case reify (length h) h v of None \<Rightarrow> Inl (Thrown TypeError) | Some j \<Rightarrow> Inr (JSON_stringify ns j))"

fun some_equal :: "(rat \<Rightarrow> string) \<Rightarrow> heap \<Rightarrow> hval list \<Rightarrow> hval \<Rightarrow> herror + bool" where
  "some_equal ns h [] item = Inr False"
| "some_equal ns h (existingItem # rest) item =
     (case stringify_h ns h existingItem of
        Inl e \<Rightarrow> Inl e
      | Inr s \<Rightarrow> (case stringify_h ns h item of
                    Inl e \<Rightarrow> Inl e
                  | Inr t \<Rightarrow> if s = t then Inr True else some_equal ns h rest item))"

function (sequential) generateData_h :: "nat \<Rightarrow> (rat \<Rightarrow> string) \<Rightarrow> rng \<Rightarrow> hval \<Rightarrow> heap \<Rightarrow> nat \<Rightarrow> hval hresult"
  and generateArray_h :: "nat \<Rightarrow> (rat \<Rightarrow> string) \<Rightarrow> rng \<Rightarrow> hval \<Rightarrow> heap \<Rightarrow> nat \<Rightarrow> hval hresult"
  and generateArray_loop_h :: "nat \<Rightarrow> (rat \<Rightarrow> string) \<Rightarrow> rng \<Rightarrow> hval \<Rightarrow> bool \<Rightarrow> number \<Rightarrow> nat
        \<Rightarrow> heap \<Rightarrow> nat \<Rightarrow> hval hresult"
  and generateObject_h :: "nat \<Rightarrow> (rat \<Rightarrow> string) \<Rightarrow> rng \<Rightarrow> hval \<Rightarrow> heap \<Rightarrow> nat \<Rightarrow> hval hresult"
  and generateObject_loop_h :: "nat \<Rightarrow> (rat \<Rightarrow> string) \<Rightarrow> rng \<Rightarrow> hval \<Rightarrow> hval \<Rightarrow> string list \<Rightarrow> nat
        \<Rightarrow> heap \<Rightarrow> nat \<Rightarrow> hval hresult"
where
  "generateData_h 0 ns rng schema h pos = None"
| "generateData_h (Suc fuel) ns rng schema h pos =
     (if schema = HUndefined \<or> schema = HNull then Some (Inl (Thrown TypeError), h, pos)
      else if truthy (get_property h schema ''enum'') then
        (case array_elements h (get_property h schema ''enum'') of
           Inl e \<Rightarrow> Some (Inl e, h, pos)
         | Inr enumValues \<Rightarrow>
             (let (i, pos') = getRandomInteger rng (Finite 0)
                                (num_sub (Finite (of_nat (length enumValues))) (Finite 1)) pos
              in Some (Inr (index_h enumValues i), h, pos')))
      else if get_property h schema ''type'' = HStr ''integer'' then
        (case number_or (get_property h schema ''minimum'') (Finite MIN_SAFE_INTEGER) of
           Inl e \<Rightarrow> Some (Inl e, h, pos)
         | Inr intMin \<Rightarrow>
             (case number_or (get_property h schema ''maximum'') (Finite MAX_SAFE_INTEGER) of
                Inl e \<Rightarrow> Some (Inl e, h, pos)
              | Inr intMax \<Rightarrow>
                  (let (v, pos') = getRandomInteger rng intMin intMax pos
                   in Some (Inr (HNum v), h, pos'))))
      else if get_property h schema ''type'' = HStr ''number'' then
        (case number_or (get_property h schema ''minimum'') (Finite (- (10 ^ 10))) of
           Inl e \<Rightarrow> Some (Inl e, h, pos)
         | Inr numMin \<Rightarrow>
             (case number_or (get_property h schema ''maximum'') (Finite (10 ^ 10)) of
                Inl e \<Rightarrow> Some (Inl e, h, pos)
              | Inr numMax \<Rightarrow>
                  (let (v, pos') = getRandomNumber rng numMin numMax pos
                   in Some (Inr (HNum v), h, pos'))))
      else if get_property h schema ''type'' = HStr ''string'' then
        (case number_or (get_property h schema ''minLength'') (Finite 0) of
           Inl e \<Rightarrow> Some (Inl e, h, pos)
         | Inr minLength \<Rightarrow>
             (case number_or (get_property h schema ''maxLength'') (num_add minLength (Finite 20)) of
                Inl e \<Rightarrow> Some (Inl e, h, pos)
              | Inr maxLength \<Rightarrow>
                  (let (len, pos') = getRandomInteger rng minLength maxLength pos
                   in case getRandomString rng len pos' of
                        None \<Rightarrow> None
                      | Some (s, pos'') \<Rightarrow> Some (Inr (HStr s), h, pos''))))
      else if get_property h schema ''type'' = HStr ''boolean'' then
        (let (b, pos') = getRandomBoolean rng pos in Some (Inr (HBool b), h, pos'))
      else if get_property h schema ''type'' = HStr ''array'' then generateArray_h fuel ns rng schema h pos
      else if get_property h schema ''type'' = HStr ''object'' then generateObject_h fuel ns rng schema h pos
      else Some (Inr HNull, h, pos))"
| "generateArray_h 0 ns rng schema h pos = None"
| "generateArray_h (Suc fuel) ns rng schema h pos =
     (case number_or (get_property h schema ''minItems'') (Finite 0) of
        Inl e \<Rightarrow> Some (Inl e, h, pos)
      | Inr minItems \<Rightarrow>
          (case number_or (get_property h schema ''maxItems'') (num_add minItems (Finite 10)) of
             Inl e \<Rightarrow> Some (Inl e, h, pos)
           | Inr maxItems \<Rightarrow>
               if minItems = Finite 0 \<and> maxItems = Finite 0 then Some (Inr (HRef (length h)), h @ [CArr []], pos)
               else
                 (let uniqueItems = truthy (get_property h schema ''uniqueItems'');
                      (len, pos') = getRandomInteger rng minItems maxItems pos;
                      itemsSchema = get_property h schema ''items'';
                      result = length h
                  in generateArray_loop_h fuel ns rng itemsSchema uniqueItems len result
                       (h @ [CArr []]) pos')))"
| "generateArray_loop_h 0 ns rng itemsSchema uniqueItems len result h pos = None"
| "generateArray_loop_h (Suc fuel) ns rng itemsSchema uniqueItems len result h pos =
     (case array_elements h (HRef result) of
        Inl e \<Rightarrow> Some (Inl e, h, pos)
      | Inr elems \<Rightarrow>
          if num_less (Finite (of_nat (length elems))) len then
            (case generateData_h fuel ns rng itemsSchema h pos of
               None \<Rightarrow> None
             | Some (Inl e, h', pos') \<Rightarrow> Some (Inl e, h', pos')
             | Some (Inr item, h', pos') \<Rightarrow>
                 if uniqueItems then
                   (case array_elements h' (HRef result) of
                      Inl e \<Rightarrow> Some (Inl e, h', pos')
                    | Inr existing \<Rightarrow>
                        (case some_equal ns h' existing item of
                           Inl e \<Rightarrow> Some (Inl e, h', pos')
                         | Inr found \<Rightarrow>
                             if \<not> found
                             then generateArray_loop_h fuel ns rng itemsSchema uniqueItems len result
                                    (push h' result item) pos'
                             else generateArray_loop_h fuel ns rng itemsSchema uniqueItems len result
                                    h' pos'))
                 else generateArray_loop_h fuel ns rng itemsSchema uniqueItems len result
                        (push h' result item) pos')
          else Some (Inr (HRef result), h, pos))"
| "generateObject_h 0 ns rng schema h pos = None"
| "generateObject_h (Suc fuel) ns rng schema h pos =
     (let result = length h;
          properties = get_property h schema ''properties'';
          required = get_property h schema ''required''
      in case (if truthy properties then own_keys h properties else Inr []) of
           Inl e \<Rightarrow> Some (Inl e, h @ [CObj []], pos)
         | Inr keys \<Rightarrow>
             generateObject_loop_h fuel ns rng properties required keys result (h @ [CObj []]) pos)"
| "generateObject_loop_h 0 ns rng properties required keys result h pos = None"
| "generateObject_loop_h (Suc fuel) ns rng properties required [] result h pos =
     Some (Inr (HRef result), h, pos)"
| "generateObject_loop_h (Suc fuel) ns rng properties required (key # rest) result h pos =
     (case hasOwnProperty_h h properties key of
        Inl e \<Rightarrow> Some (Inl e, h, pos)
      | Inr own \<Rightarrow>
          if own then
            (case array_includes h required key of
               Inl e \<Rightarrow> Some (Inl e, h, pos)
             | Inr isRequired \<Rightarrow>
                 (let (include, pos') = (if isRequired then (True, pos)
                                         else (let (r, p) = Math_random rng pos
                                               in (num_less (Finite r) (fl (7 / 10)), p)))
                  in if include then
                       (case generateData_h fuel ns rng (get_property h properties key) h pos' of
                          None \<Rightarrow> None
                        | Some (Inl e, h', pos'') \<Rightarrow> Some (Inl e, h', pos'')
                        | Some (Inr v, h', pos'') \<Rightarrow>
                            generateObject_loop_h fuel ns rng properties required rest result
                              (assign h' result key v) pos'')
                     else generateObject_loop_h fuel ns rng properties required rest result h pos'))
          else generateObject_loop_h fuel ns rng properties required rest result h pos)"
  by pat_completeness auto

termination
  apply (relation "measure (\<lambda>x. case x of
      Inl (Inl (fuel, r)) \<Rightarrow> fuel
    | Inl (Inr (fuel, r)) \<Rightarrow> fuel
    | Inr (Inl (fuel, r)) \<Rightarrow> fuel
    | Inr (Inr (Inl (fuel, r))) \<Rightarrow> fuel
    | Inr (Inr (Inr (fuel, r))) \<Rightarrow> fuel)")
  apply simp_all
  done

definition generateRandomData_h :: "nat \<Rightarrow> (rat \<Rightarrow> string) \<Rightarrow> rng \<Rightarrow> hval \<Rightarrow> heap \<Rightarrow> nat \<Rightarrow> hval hresult" where
  "generateRandomData_h fuel ns rng schema h pos = generateData_h fuel ns rng schema h pos"

text \<open>The first \<open>n\<close> cells of the store are the same in \<open>h\<close> and \<open>h'\<close>, and no cell is
  lost.\<close>

definition frame :: "nat \<Rightarrow> heap \<Rightarrow> heap \<Rightarrow> bool" where
  "frame n h h' \<longleftrightarrow> take n h' = take n h \<and> length h \<le> length h'"

section \<open>Facts about rounding\<close>

lemma rhe_int [simp]: "round_half_even (of_int n) = n"
  by (simp add: round_half_even_def)

lemma rhe_range: "\<lfloor>q\<rfloor> \<le> round_half_even q" "round_half_even q \<le> \<lfloor>q\<rfloor> + 1"
  by (simp_all add: round_half_even_def Let_def)

lemma rhe_mono: "q \<le> q' \<Longrightarrow> round_half_even q \<le> round_half_even q'"
proof -
  assume le: "q \<le> q'"
  then have f: "\<lfloor>q\<rfloor> \<le> \<lfloor>q'\<rfloor>" by (rule floor_mono)
  show ?thesis
  proof (cases "\<lfloor>q\<rfloor> = \<lfloor>q'\<rfloor>")
    case True
    with le show ?thesis by (auto simp: round_half_even_def Let_def)
  next
    case False
    with f have "\<lfloor>q\<rfloor> + 1 \<le> \<lfloor>q'\<rfloor>" by simp
    with rhe_range(2) [of q] rhe_range(1) [of q'] show ?thesis by linarith
  qed
qed

lemma rhe_eval:
  assumes "0 \<le> d" "d < 1"
  shows "round_half_even (of_int f + d) =
     (if d < 1 / 2 then f else if 1 / 2 < d then f + 1 else if even f then f else f + 1)"
proof -
  have "\<lfloor>of_int f + d\<rfloor> = f" using assms by (intro floor_unique) simp_all
  then show ?thesis by (simp add: round_half_even_def Let_def)
qed

lemma rhe_neg: "round_half_even (- q) = - round_half_even q"
proof -
  define f where "f = \<lfloor>q\<rfloor>"
  define d where "d = q - of_int f"
  have d: "0 \<le> d" "d < 1" and q: "q = of_int f + d"
    unfolding d_def f_def by (simp_all, linarith)
  show ?thesis
  proof (cases "d = 0")
    case True
    with q have "q = of_int f" by simp
    then have "- q = of_int (- f)" by simp
    then show ?thesis using \<open>q = of_int f\<close> by (metis rhe_int)
  next
    case False
    with d have d': "0 \<le> 1 - d" "1 - d < 1" by simp_all
    have nq: "- q = of_int (- f - 1) + (1 - d)" using q by simp
    have "round_half_even (- q) =
       (if 1 - d < 1 / 2 then - f - 1 else if 1 / 2 < 1 - d then - f - 1 + 1
        else if even (- f - 1) then - f - 1 else - f - 1 + 1)"
      unfolding nq by (rule rhe_eval [OF d'])
    moreover have "round_half_even q =
       (if d < 1 / 2 then f else if 1 / 2 < d then f + 1 else if even f then f else f + 1)"
      unfolding q by (rule rhe_eval [OF d])
    ultimately show ?thesis by (auto split: if_splits)
  qed
qed

lemma rhe_half: "round_half_even (of_int j + 1 / 2) = (if even j then j else j + 1)"
  using rhe_eval [of "1 / 2" j] by simp

lemma rhe_below: "q < of_int m - 1 / 2 \<Longrightarrow> round_half_even q < m"
proof -
  assume a: "q < of_int m - 1 / 2"
  define f where "f = \<lfloor>q\<rfloor>"
  define d where "d = q - of_int f"
  have d: "0 \<le> d" "d < 1" and q: "q = of_int f + d"
    unfolding d_def f_def by (simp_all, linarith)
  have r: "round_half_even q =
       (if d < 1 / 2 then f else if 1 / 2 < d then f + 1 else if even f then f else f + 1)"
    unfolding q by (rule rhe_eval [OF d])
  have "of_int f \<le> q" unfolding f_def by simp
  with a have "(of_int f :: rat) < of_int m" by linarith
  then have fm: "f < m" by simp
  show ?thesis
  proof (cases "d < 1 / 2")
    case True
    with r fm show ?thesis by simp
  next
    case False
    with q a have "of_int f + 1 / 2 < (of_int m :: rat) - 1 / 2" by linarith
    then have "(of_int (f + 1) :: rat) < of_int m" by simp
    then have "f + 1 < m" by (simp only: of_int_less_iff)
    with r show ?thesis by (auto split: if_splits)
  qed
qed

lemma rhe_le: "q \<le> of_int m \<Longrightarrow> round_half_even q \<le> m"
  using rhe_mono [of q "of_int m"] by simp

lemma rhe_ge: "of_int m \<le> q \<Longrightarrow> m \<le> round_half_even q"
  using rhe_mono [of "of_int m" q] by simp

lemma bitlen_powi:
  assumes "0 < p"
  shows "(2 :: rat) powi (bitlen p - 1) \<le> of_int p" and "(of_int p :: rat) < 2 powi (bitlen p)"
proof -
  from bitlen_bounds [OF assms] have a: "2 ^ nat (bitlen p - 1) \<le> p" and b: "p < 2 ^ nat (bitlen p)"
    by simp_all
  have ge1: "1 \<le> bitlen p" using assms by (auto simp: bitlen_alt_def)
  from a have "(of_int (2 ^ nat (bitlen p - 1)) :: rat) \<le> of_int p" by (simp only: of_int_le_iff)
  then show "(2 :: rat) powi (bitlen p - 1) \<le> of_int p" using ge1 by (simp add: power_int_def)
  from b have "(of_int p :: rat) < of_int (2 ^ nat (bitlen p))" by (simp only: of_int_less_iff)
  then show "(of_int p :: rat) < 2 powi (bitlen p)" using ge1 by (simp add: power_int_def)
qed

lemma exponent_bounds:
  assumes "0 < x"
  shows "2 powi (exponent x) \<le> x" and "x < 2 powi (exponent x + 1)"
proof -
  obtain p q where pq: "quotient_of x = (p, q)" by (cases "quotient_of x")
  then have q: "0 < q" by (rule quotient_of_denom_pos)
  from pq have x: "x = of_int p / of_int q" by (rule quotient_of_div)
  with assms q have p: "0 < p" by (simp add: zero_less_divide_iff)
  define c where "c = bitlen p - bitlen q"
  have e: "exponent x = (if 2 powi c \<le> x then c else c - 1)"
    by (simp add: exponent_def pq c_def Let_def)
  note bp = bitlen_powi [OF p] and bq = bitlen_powi [OF q]
  have qpos: "(0 :: rat) < of_int q" using q by simp
  have lo: "(2 :: rat) powi (c - 1) \<le> x"
  proof -
    have "(2 :: rat) powi (c - 1) * of_int q \<le> 2 powi (c - 1) * 2 powi (bitlen q)"
      using bq(2) by (intro mult_left_mono) simp_all
    also have "\<dots> = 2 powi (bitlen p - 1)"
      by (simp add: c_def power_int_add [symmetric])
    also have "\<dots> \<le> of_int p" by (rule bp(1))
    finally show ?thesis using qpos by (simp add: x pos_le_divide_eq)
  qed
  have hi: "x < (2 :: rat) powi (c + 1)"
  proof -
    have "(of_int p :: rat) < 2 powi (bitlen p)" by (rule bp(2))
    also have "\<dots> = 2 powi (c + 1) * 2 powi (bitlen q - 1)"
      by (simp add: c_def power_int_add [symmetric])
    also have "\<dots> \<le> 2 powi (c + 1) * of_int q"
      using bq(1) by (intro mult_left_mono) simp_all
    finally show ?thesis using qpos by (simp add: x pos_divide_less_eq)
  qed
  show "2 powi (exponent x) \<le> x" using lo by (simp add: e)
  show "x < 2 powi (exponent x + 1)" using hi by (auto simp: e not_le)
qed

lemma powi_less_iff: "(2 :: rat) powi a < 2 powi b \<longleftrightarrow> a < b"
proof
  assume "(2 :: rat) powi a < 2 powi b"
  show "a < b"
  proof (rule ccontr)
    assume "\<not> a < b"
    then have "b \<le> a" by simp
    then have "(2 :: rat) powi b \<le> 2 powi a" by (intro power_int_increasing) simp_all
    with \<open>(2 :: rat) powi a < 2 powi b\<close> show False by simp
  qed
next
  assume "a < b"
  then show "(2 :: rat) powi a < 2 powi b" by (intro power_int_strict_increasing) simp_all
qed

lemma powi_le_iff: "(2 :: rat) powi a \<le> 2 powi b \<longleftrightarrow> a \<le> b"
  using powi_less_iff [of b a] by (simp add: not_less [symmetric])

lemma powi_pos [simp]: "(0 :: rat) < 2 powi a"
  by (simp add: zero_less_power_int)

lemma exponent_unique:
  assumes "2 powi E \<le> x" "x < 2 powi (E + 1)"
  shows "exponent x = E"
proof -
  have x: "0 < x" using assms(1) powi_pos [of E] by linarith
  note b = exponent_bounds [OF x]
  have "(2 :: rat) powi E < 2 powi (exponent x + 1)" using assms(1) b(2) by linarith
  then have 1: "E < exponent x + 1" by (simp add: powi_less_iff)
  have "(2 :: rat) powi (exponent x) < 2 powi (E + 1)" using assms(2) b(1) by linarith
  then have 2: "exponent x < E + 1" by (simp add: powi_less_iff)
  from 1 2 show ?thesis by simp
qed

lemma round_double_grid:
  "x \<noteq> 0 \<Longrightarrow> round_double x = of_int (round_half_even (x / 2 powi grid x)) * 2 powi grid x"
  by (simp add: round_double_def)

lemma grid_neg [simp]: "grid (- x) = grid x"
  by (simp add: grid_def)

lemma round_double_0 [simp]: "round_double 0 = 0"
  by (simp add: round_double_def)

lemma round_double_neg: "round_double (- x) = - round_double x"
proof (cases "x = 0")
  case True
  then show ?thesis by simp
next
  case False
  then show ?thesis by (simp add: round_double_grid rhe_neg)
qed

lemma grid_ge: "- 1074 \<le> grid x"
  by (simp add: grid_def)

lemma grid_exponent: "exponent \<bar>x\<bar> - 52 \<le> grid x"
  by (simp add: grid_def)

lemma powi_mult_pow: "(2 :: rat) powi a * 2 ^ n = 2 powi (a + int n)"
  by (simp add: power_int_add)

lemma scaled_bounds:
  assumes "x \<noteq> 0"
  shows "\<bar>x\<bar> / 2 powi grid x < 2 ^ 53"
    and "- 1022 \<le> exponent \<bar>x\<bar> \<Longrightarrow> 2 ^ 52 \<le> \<bar>x\<bar> / 2 powi grid x"
    and "exponent \<bar>x\<bar> < - 1022 \<Longrightarrow> \<bar>x\<bar> / 2 powi grid x < 2 ^ 52"
proof -
  have pos: "0 < \<bar>x\<bar>" using assms by simp
  note b = exponent_bounds [OF pos]
  have "\<bar>x\<bar> < 2 powi (exponent \<bar>x\<bar> + 1)" by (rule b(2))
  also have "\<dots> \<le> 2 powi (grid x + 53)"
    using grid_exponent [of x] by (simp add: powi_le_iff)
  also have "\<dots> = 2 powi grid x * 2 ^ 53"
    by (simp only: powi_mult_pow) simp
  finally show "\<bar>x\<bar> / 2 powi grid x < 2 ^ 53"
    by (simp add: pos_divide_less_eq mult.commute)
  show "2 ^ 52 \<le> \<bar>x\<bar> / 2 powi grid x" if "- 1022 \<le> exponent \<bar>x\<bar>"
  proof -
    from that have g: "grid x = exponent \<bar>x\<bar> - 52" by (simp add: grid_def)
    have "2 powi grid x * 2 ^ 52 = (2 :: rat) powi (exponent \<bar>x\<bar>)"
      by (simp only: powi_mult_pow g) simp
    also have "\<dots> \<le> \<bar>x\<bar>" by (rule b(1))
    finally show ?thesis by (simp add: pos_le_divide_eq mult.commute)
  qed
  show "\<bar>x\<bar> / 2 powi grid x < 2 ^ 52" if "exponent \<bar>x\<bar> < - 1022"
  proof -
    from that have g: "grid x = - 1074" by (simp add: grid_def)
    have "\<bar>x\<bar> < 2 powi (exponent \<bar>x\<bar> + 1)" by (rule b(2))
    also have "\<dots> \<le> 2 powi (- 1022)"
      by (rule powi_le_iff [THEN iffD2]) (use that in linarith)
    also have "\<dots> = 2 powi grid x * 2 ^ 52" by (simp only: powi_mult_pow g) simp
    finally show ?thesis by (simp add: pos_divide_less_eq mult.commute)
  qed
qed

lemma round_double_on_grid:
  assumes "x = of_int n * 2 powi grid x"
  shows "round_double x = x"
proof (cases "x = 0")
  case True
  then show ?thesis by simp
next
  case False
  have "x / 2 powi grid x = of_int n"
    using assms powi_pos [of "grid x"] by (metis less_irrefl nonzero_mult_div_cancel_right)
  then show ?thesis using assms by (simp add: round_double_grid [OF False])
qed

lemma round_double_dyadic:
  assumes m: "\<bar>m\<bar> < 2 ^ 53" and e: "- 1074 \<le> e"
  shows "round_double (of_int m * 2 powi e) = of_int m * 2 powi e"
proof (cases "m = 0")
  case True
  then show ?thesis by simp
next
  case False
  define x :: rat where "x = of_int m * 2 powi e"
  have x0: "x \<noteq> 0" using False by (simp add: x_def)
  then have pos: "0 < \<bar>x\<bar>" by simp
  have ax: "\<bar>x\<bar> = of_int \<bar>m\<bar> * 2 powi e" by (simp add: x_def abs_mult)
  have "(of_int \<bar>m\<bar> :: rat) < of_int (2 ^ 53)" using m by (simp only: of_int_less_iff)
  then have "(of_int \<bar>m\<bar> :: rat) < 2 ^ 53" by simp
  then have "\<bar>x\<bar> < 2 ^ 53 * 2 powi e" unfolding ax by (intro mult_strict_right_mono) simp_all
  also have "\<dots> = 2 powi (e + 53)" by (simp only: powi_mult_pow mult.commute [of "2 ^ 53"]) simp
  finally have "(2 :: rat) powi (exponent \<bar>x\<bar>) < 2 powi (e + 53)"
    using exponent_bounds(1) [OF pos] by linarith
  then have "exponent \<bar>x\<bar> < e + 53" by (simp only: powi_less_iff)
  with e have g: "grid x \<le> e" by (simp add: grid_def)
  define k where "k = nat (e - grid x)"
  have ek: "e = grid x + int k" using g by (simp add: k_def)
  have "(2 :: rat) powi e = 2 powi grid x * 2 ^ k"
    using ek by (simp only: powi_mult_pow)
  then have "(of_int m :: rat) * 2 powi e = of_int m * (2 powi grid x * 2 ^ k)" by simp
  then have "x = of_int m * (2 powi grid x * 2 ^ k)" by (simp only: x_def [symmetric])
  moreover have "(of_int m :: rat) * (2 powi grid x * 2 ^ k) = of_int (m * 2 ^ k) * 2 powi grid x"
    by simp
  ultimately have "x = of_int (m * 2 ^ k) * 2 powi grid x" by (rule trans)
  then have "round_double x = x" by (rule round_double_on_grid)
  then show ?thesis by (simp add: x_def)
qed

lemma round_double_int:
  assumes "\<bar>n\<bar> \<le> 2 ^ 53"
  shows "round_double (of_int n) = of_int n"
proof (cases "\<bar>n\<bar> < 2 ^ 53")
  case True
  then show ?thesis using round_double_dyadic [of n 0] by simp
next
  case False
  with assms have "\<bar>n\<bar> = 2 ^ 53" by simp
  then consider "n = 2 ^ 53" | "n = - (2 ^ 53)" by linarith
  then show ?thesis
  proof cases
    case 1
    have "round_double (of_int (2 ^ 52) * 2 powi 1) = of_int (2 ^ 52) * 2 powi 1"
      by (rule round_double_dyadic) simp_all
    then show ?thesis using 1 by simp
  next
    case 2
    have "round_double (of_int (- (2 ^ 52)) * 2 powi 1) = of_int (- (2 ^ 52)) * 2 powi 1"
      by (rule round_double_dyadic) simp_all
    then show ?thesis using 2 by simp
  qed
qed

lemma round_double_nonneg: "0 \<le> x \<Longrightarrow> 0 \<le> round_double x"
proof (cases "x = 0")
  case True
  then show ?thesis by simp
next
  case False
  assume "0 \<le> x"
  then have "0 \<le> x / 2 powi grid x" by simp
  then have "0 \<le> round_half_even (x / 2 powi grid x)" using rhe_ge [of 0] by simp
  then show ?thesis by (simp add: round_double_grid [OF False])
qed

text \<open>The rounded value stays in the closed binade of the argument.\<close>

lemma round_double_binade:
  assumes x: "0 < x"
  shows "- 1022 \<le> exponent x \<Longrightarrow> 2 powi (exponent x) \<le> round_double x"
    and "- 1022 \<le> exponent x \<Longrightarrow> round_double x \<le> 2 powi (exponent x + 1)"
    and "exponent x < - 1022 \<Longrightarrow> round_double x \<le> 2 powi (- 1022)"
proof -
  have x0: "x \<noteq> 0" and ax: "\<bar>x\<bar> = x" using x by simp_all
  note sb = scaled_bounds [OF x0, unfolded ax]
  note rd = round_double_grid [OF x0]
  have up: "round_half_even (x / 2 powi grid x) \<le> 2 ^ 53"
    using rhe_le [of "x / 2 powi grid x" "2 ^ 53"] sb(1) by simp
  show "2 powi (exponent x) \<le> round_double x" if n: "- 1022 \<le> exponent x"
  proof -
    from n have g: "grid x = exponent x - 52" by (simp add: grid_def ax)
    have "2 ^ 52 \<le> round_half_even (x / 2 powi grid x)"
      using rhe_ge [of "2 ^ 52" "x / 2 powi grid x"] sb(2) [OF n] by simp
    then have "(of_int (2 ^ 52) :: rat) \<le> of_int (round_half_even (x / 2 powi grid x))"
      by (simp only: of_int_le_iff)
    then have "2 ^ 52 * 2 powi grid x \<le> round_double x"
      unfolding rd by (intro mult_right_mono) simp_all
    moreover have "2 ^ 52 * 2 powi grid x = (2 :: rat) powi (exponent x)"
      by (simp only: mult.commute [of "2 ^ 52"] powi_mult_pow g) simp
    ultimately show ?thesis by simp
  qed
  show "round_double x \<le> 2 powi (exponent x + 1)" if n: "- 1022 \<le> exponent x"
  proof -
    from n have g: "grid x = exponent x - 52" by (simp add: grid_def ax)
    have "(of_int (round_half_even (x / 2 powi grid x)) :: rat) \<le> of_int (2 ^ 53)"
      using up by (simp only: of_int_le_iff)
    then have "round_double x \<le> 2 ^ 53 * 2 powi grid x"
      unfolding rd by (intro mult_right_mono) simp_all
    moreover have "2 ^ 53 * 2 powi grid x = (2 :: rat) powi (exponent x + 1)"
      by (simp only: mult.commute [of "2 ^ 53"] powi_mult_pow g) (simp add: add.commute)
    ultimately show ?thesis by simp
  qed
  show "round_double x \<le> 2 powi (- 1022)" if s: "exponent x < - 1022"
  proof -
    from s have g: "grid x = - 1074" by (simp add: grid_def ax)
    have "round_half_even (x / 2 powi grid x) \<le> 2 ^ 52"
      using rhe_le [of "x / 2 powi grid x" "2 ^ 52"] sb(3) [OF s] by simp
    then have "(of_int (round_half_even (x / 2 powi grid x)) :: rat) \<le> of_int (2 ^ 52)"
      by (simp only: of_int_le_iff)
    then have "round_double x \<le> 2 ^ 52 * 2 powi grid x"
      unfolding rd by (intro mult_right_mono) simp_all
    moreover have "2 ^ 52 * 2 powi grid x = (2 :: rat) powi (- 1022)"
      by (simp only: mult.commute [of "2 ^ 52"] powi_mult_pow g) simp
    ultimately show ?thesis by simp
  qed
qed

lemma exponent_mono:
  assumes "0 < x" "x \<le> y"
  shows "exponent x \<le> exponent y"
proof -
  have y: "0 < y" using assms by simp
  have "(2 :: rat) powi (exponent x) < 2 powi (exponent y + 1)"
    using exponent_bounds(1) [OF assms(1)] exponent_bounds(2) [OF y] assms(2) by linarith
  then have "exponent x < exponent y + 1" by (simp only: powi_less_iff)
  then show ?thesis by simp
qed

lemma round_double_mono_pos:
  assumes x: "0 < x" and xy: "x \<le> y"
  shows "round_double x \<le> round_double y"
proof -
  have y: "0 < y" using x xy by simp
  have x0: "x \<noteq> 0" and y0: "y \<noteq> 0" using x y by simp_all
  have ax: "\<bar>x\<bar> = x" and ay: "\<bar>y\<bar> = y" using x y by simp_all
  have ex: "exponent x \<le> exponent y" using x xy by (rule exponent_mono)
  then have gg: "grid x \<le> grid y" by (simp add: grid_def ax ay)
  show ?thesis
  proof (cases "grid x = grid y")
    case True
    have "x / 2 powi grid y \<le> y / 2 powi grid y"
      using xy by (intro divide_right_mono) simp_all
    then have "round_half_even (x / 2 powi grid y) \<le> round_half_even (y / 2 powi grid y)"
      by (rule rhe_mono)
    then have "(of_int (round_half_even (x / 2 powi grid y)) :: rat)
        \<le> of_int (round_half_even (y / 2 powi grid y))"
      by (simp only: of_int_le_iff)
    then have "of_int (round_half_even (x / 2 powi grid y)) * 2 powi grid y
        \<le> of_int (round_half_even (y / 2 powi grid y)) * (2 :: rat) powi grid y"
      by (intro mult_right_mono) simp_all
    then show ?thesis
      by (simp add: round_double_grid [OF x0] round_double_grid [OF y0] True)
  next
    case False
    with gg have lt: "grid x < grid y" by simp
    then have ny: "- 1022 < exponent y" by (auto simp: grid_def ax ay max_def split: if_splits)
    have lo: "2 powi (exponent y) \<le> round_double y"
      using ny by (intro round_double_binade(1) [OF y]) simp
    have hi: "round_double x \<le> 2 powi (exponent y)"
    proof (cases "- 1022 \<le> exponent x")
      case True
      then have "exponent x < exponent y" using lt by (simp add: grid_def ax ay)
      then have "exponent x + 1 \<le> exponent y" by simp
      then have "(2 :: rat) powi (exponent x + 1) \<le> 2 powi (exponent y)"
        by (simp only: powi_le_iff)
      with round_double_binade(2) [OF x True] show ?thesis by linarith
    next
      case False
      then have s: "exponent x < - 1022" by simp
      have "(2 :: rat) powi (- 1022) \<le> 2 powi (exponent y)"
        by (rule powi_le_iff [THEN iffD2]) (use ny in linarith)
      with round_double_binade(3) [OF x s] show ?thesis by linarith
    qed
    from lo hi show ?thesis by linarith
  qed
qed

lemma round_double_mono: "x \<le> y \<Longrightarrow> round_double x \<le> round_double y"
proof -
  assume xy: "x \<le> y"
  consider "0 < x" | "x \<le> 0" "0 \<le> y" | "y < 0" using xy by linarith
  then show ?thesis
  proof cases
    case 1
    then show ?thesis using xy by (rule round_double_mono_pos)
  next
    case 2
    have "0 \<le> round_double (- x)" using 2(1) by (intro round_double_nonneg) simp
    then have "round_double x \<le> 0" by (simp add: round_double_neg)
    moreover have "0 \<le> round_double y" using 2(2) by (rule round_double_nonneg)
    ultimately show ?thesis by linarith
  next
    case 3
    then have "0 < - y" "- y \<le> - x" using xy by simp_all
    then have "round_double (- y) \<le> round_double (- x)" by (rule round_double_mono_pos)
    then show ?thesis by (simp add: round_double_neg)
  qed
qed

lemma round_double_idem: "round_double (round_double x) = round_double x"
proof (cases "x = 0")
  case True
  then show ?thesis by simp
next
  case False
  define n where "n = round_half_even (x / 2 powi grid x)"
  have rd: "round_double x = of_int n * 2 powi grid x"
    by (simp add: round_double_grid [OF False] n_def)
  have sb: "\<bar>x\<bar> / 2 powi grid x < 2 ^ 53"
    using scaled_bounds(1) [OF False] .
  have "x / 2 powi grid x \<le> \<bar>x\<bar> / 2 powi grid x"
    by (intro divide_right_mono) simp_all
  moreover have "- (\<bar>x\<bar> / 2 powi grid x) \<le> x / 2 powi grid x"
  proof -
    have "(- \<bar>x\<bar>) / 2 powi grid x \<le> x / 2 powi grid x"
      by (intro divide_right_mono) simp_all
    then show ?thesis by simp
  qed
  ultimately have b: "x / 2 powi grid x \<le> of_int (2 ^ 53)" "of_int (- (2 ^ 53)) \<le> x / 2 powi grid x"
    using sb by simp_all
  have "n \<le> 2 ^ 53" unfolding n_def using b(1) by (rule rhe_le)
  moreover have "- (2 ^ 53) \<le> n" unfolding n_def using b(2) by (rule rhe_ge)
  ultimately have n: "\<bar>n\<bar> \<le> 2 ^ 53" by simp
  show ?thesis
  proof (cases "\<bar>n\<bar> < 2 ^ 53")
    case True
    then show ?thesis unfolding rd by (rule round_double_dyadic) (rule grid_ge)
  next
    case False
    with n have "\<bar>n\<bar> = 2 ^ 53" by simp
    then have "n = 2 * 2 ^ 52 \<or> n = 2 * (- (2 ^ 52))" by (simp add: abs_if split: if_splits)
    then consider "n = 2 * 2 ^ 52" | "n = 2 * (- (2 ^ 52))" by blast
    then show ?thesis
    proof cases
      case 1
      have "round_double (of_int (2 ^ 52) * 2 powi (grid x + 1)) = of_int (2 ^ 52) * 2 powi (grid x + 1)"
        by (rule round_double_dyadic) (use grid_ge [of x] in simp_all)
      moreover have "of_int n * 2 powi grid x = (of_int (2 ^ 52) :: rat) * 2 powi (grid x + 1)"
        by (simp add: 1 power_int_add)
      ultimately show ?thesis unfolding rd by simp
    next
      case 2
      have "round_double (of_int (- (2 ^ 52)) * 2 powi (grid x + 1)) = of_int (- (2 ^ 52)) * 2 powi (grid x + 1)"
        by (rule round_double_dyadic) (use grid_ge [of x] in simp_all)
      moreover have "of_int n * 2 powi grid x = (of_int (- (2 ^ 52)) :: rat) * 2 powi (grid x + 1)"
        by (simp add: 2 power_int_add)
      ultimately show ?thesis unfolding rd by simp
    qed
  qed
qed

lemma is_double_iff: "is_double x \<longleftrightarrow> round_double x = x \<and> \<bar>x\<bar> < 2 ^ 1024"
  by (auto simp: is_double_def fl_def Let_def abs_less_iff)

lemma is_double_0 [simp]: "is_double 0"
  by (simp add: is_double_iff)

lemma is_double_neg: "is_double (- x) \<longleftrightarrow> is_double x"
  by (simp add: is_double_iff round_double_neg)

lemma is_double_repr:
  assumes "is_double x"
  obtains n where "x = of_int n * 2 powi grid x" "\<bar>n\<bar> < 2 ^ 53"
proof (cases "x = 0")
  case True
  then have "x = of_int 0 * 2 powi grid x" "\<bar>0 :: int\<bar> < 2 ^ 53" by simp_all
  then show ?thesis by (rule that)
next
  case False
  define n where "n = round_half_even (x / 2 powi grid x)"
  have rx: "round_double x = x" using assms by (simp add: is_double_iff)
  then have x: "x = of_int n * 2 powi grid x"
    using round_double_grid [OF False] by (simp add: n_def)
  have "\<bar>x\<bar> = \<bar>of_int n :: rat\<bar> * 2 powi grid x"
    by (subst x) (simp add: abs_mult)
  then have "\<bar>x\<bar> / 2 powi grid x = \<bar>of_int n :: rat\<bar>" by simp
  with scaled_bounds(1) [OF False] have "\<bar>of_int n :: rat\<bar> < 2 ^ 53" by simp
  then have "(of_int \<bar>n\<bar> :: rat) < of_int (2 ^ 53)" by simp
  then have "\<bar>n\<bar> < 2 ^ 53" by (simp only: of_int_less_iff)
  with x show ?thesis by (rule that)
qed

lemma is_double_int: "\<bar>n\<bar> \<le> 2 ^ 53 \<Longrightarrow> is_double (of_int n)"
proof -
  assume n: "\<bar>n\<bar> \<le> 2 ^ 53"
  then have "(of_int \<bar>n\<bar> :: rat) \<le> of_int (2 ^ 53)" by (simp only: of_int_le_iff)
  then have "\<bar>of_int n :: rat\<bar> \<le> 2 ^ 53" by simp
  moreover have "(2 :: rat) ^ 53 < 2 ^ 1024" by simp
  ultimately have "\<bar>of_int n :: rat\<bar> < 2 ^ 1024" by linarith
  with round_double_int [OF n] show ?thesis by (simp only: is_double_iff)
qed

lemma is_double_nat: "n \<le> 2 ^ 53 \<Longrightarrow> is_double (of_nat n)"
  using is_double_int [of "int n"] by simp

lemma is_double_round: "\<bar>round_double x\<bar> < 2 ^ 1024 \<Longrightarrow> is_double (round_double x)"
  by (simp add: is_double_iff round_double_idem)

lemma round_le_double: "is_double q \<Longrightarrow> x \<le> q \<Longrightarrow> round_double x \<le> q"
  using round_double_mono [of x q] by (simp add: is_double_iff)

lemma round_ge_double: "is_double q \<Longrightarrow> q \<le> x \<Longrightarrow> q \<le> round_double x"
  using round_double_mono [of q x] by (simp add: is_double_iff)

lemma double_less_round: "is_double q \<Longrightarrow> q < round_double x \<Longrightarrow> q < x"
  using round_le_double [of q x] by (cases "q < x") simp_all

lemma round_less_double: "is_double q \<Longrightarrow> round_double x < q \<Longrightarrow> x < q"
  using round_ge_double [of q x] by (cases "x < q") simp_all

lemma exponent_ge:
  assumes "2 powi E \<le> x"
  shows "E \<le> exponent x"
proof -
  have x: "0 < x" using assms powi_pos [of E] by linarith
  have "(2 :: rat) powi E < 2 powi (exponent x + 1)"
    using assms exponent_bounds(2) [OF x] by linarith
  then have "E < exponent x + 1" by (simp only: powi_less_iff)
  then show ?thesis by simp
qed

lemma exponent_less:
  assumes "0 < x" "x < 2 powi E"
  shows "exponent x < E"
proof -
  have "(2 :: rat) powi (exponent x) < 2 powi E"
    using assms exponent_bounds(1) [OF assms(1)] by linarith
  then show ?thesis by (simp only: powi_less_iff)
qed

lemma double_normal_repr:
  assumes d: "is_double y" and y: "2 powi (- 1022) \<le> y"
  obtains n where "y = of_int n * 2 powi (exponent y - 52)" "2 ^ 52 \<le> n" "n < 2 ^ 53"
proof -
  have y0: "0 < y" using y powi_pos [of "- 1022"] by linarith
  then have ay: "\<bar>y\<bar> = y" by simp
  have E: "- 1022 \<le> exponent y" using y by (rule exponent_ge)
  then have g: "grid y = exponent y - 52" by (simp add: grid_def ay)
  from d obtain n where n: "y = of_int n * 2 powi grid y" "\<bar>n\<bar> < 2 ^ 53"
    by (rule is_double_repr)
  have "y / 2 powi grid y = of_int n" by (subst n(1)) simp
  moreover have "2 ^ 52 \<le> \<bar>y\<bar> / 2 powi grid y"
    using y0 E by (intro scaled_bounds(2)) (simp_all add: ay)
  ultimately have "(of_int (2 ^ 52) :: rat) \<le> of_int n" by (simp add: ay)
  then have "2 ^ 52 \<le> n" by (simp only: of_int_le_iff)
  moreover have "n < 2 ^ 53" using n(2) by simp
  moreover have "y = of_int n * 2 powi (exponent y - 52)" using n(1) by (simp only: g)
  ultimately show ?thesis using that by blast
qed

lemma round_strict:
  assumes d: "is_double y" and y: "2 powi (- 1022) < y"
    and x0: "0 \<le> x" and xy: "x \<le> y * (1 - 1 / 2 ^ 53)"
  shows "round_double x < y"
proof (cases "x = 0")
  case True
  have "0 < y" using y powi_pos [of "- 1022"] by linarith
  with True show ?thesis by simp
next
  case False
  with x0 have x: "0 < x" by simp
  have y0: "0 < y" using y powi_pos [of "- 1022"] by linarith
  have lt: "x < y"
  proof -
    have "y * (1 - 1 / 2 ^ 53) < y * 1" using y0 by (intro mult_strict_left_mono) simp_all
    with xy show ?thesis by simp
  qed
  have yl: "2 powi (- 1022) \<le> y" using y by simp
  from d yl obtain n0 where n0: "y = of_int n0 * 2 powi (exponent y - 52)" "2 ^ 52 \<le> n0" "n0 < 2 ^ 53"
    by (rule double_normal_repr)
  define E where "E = exponent y"
  define n where "n = n0"
  have n: "y = of_int n * 2 powi (E - 52)" "2 ^ 52 \<le> n" "n < 2 ^ 53"
    using n0 by (simp_all add: E_def n_def)
  have E: "- 1022 \<le> E" unfolding E_def using y by (intro exponent_ge) simp
  have yE: "2 powi E \<le> y" "y < 2 powi (E + 1)"
    unfolding E_def using exponent_bounds [OF y0] by simp_all
  have split: "(2 :: rat) powi E = 2 ^ 52 * 2 powi (E - 52)"
  proof -
    have "(2 :: rat) powi (E - 52) * 2 ^ 52 = 2 powi (E - 52 + int 52)" by (rule powi_mult_pow)
    then show ?thesis by (simp add: mult.commute)
  qed
  have exle: "exponent x \<le> E" unfolding E_def using x lt by (intro exponent_mono) simp_all
  show ?thesis
  proof (cases "exponent x = E")
    case True
    then have gx: "grid x = E - 52" using E x by (simp add: grid_def)
    have "2 powi E \<le> x" using exponent_bounds(1) [OF x] True by simp
    with lt have "2 powi E < y" by linarith
    then have "(2 :: rat) ^ 52 * 2 powi (E - 52) < of_int n * 2 powi (E - 52)"
      using n(1) split by simp
    then have "(2 :: rat) ^ 52 < of_int n" by simp
    then have "(of_int (2 ^ 52) :: rat) < of_int n" by simp
    then have n52: "2 ^ 52 < n" by (simp only: of_int_less_iff)
    then have "2 ^ 52 + 1 \<le> n" by simp
    then have "(of_int (2 ^ 52 + 1) :: rat) \<le> of_int n" by (simp only: of_int_le_iff)
    then have nn: "(2 :: rat) ^ 52 + 1 \<le> of_int n" by simp
    have "x / 2 powi (E - 52) \<le> y * (1 - 1 / 2 ^ 53) / 2 powi (E - 52)"
      using xy by (intro divide_right_mono) simp_all
    also have "\<dots> = of_int n * (1 - 1 / 2 ^ 53)" by (subst n(1)) simp
    also have "\<dots> = of_int n - of_int n / 2 ^ 53" by (simp add: algebra_simps)
    also have "\<dots> < of_int n - 1 / 2"
    proof -
      have "(1 :: rat) / 2 < (2 ^ 52 + 1) / 2 ^ 53" by simp
      also have "\<dots> \<le> of_int n / 2 ^ 53" using nn by (intro divide_right_mono) simp_all
      finally show ?thesis by simp
    qed
    finally have "round_half_even (x / 2 powi (E - 52)) < n" by (rule rhe_below)
    then have "round_half_even (x / 2 powi (E - 52)) \<le> n - 1" by simp
    then have "(of_int (round_half_even (x / 2 powi (E - 52))) :: rat) \<le> of_int (n - 1)"
      by (simp only: of_int_le_iff)
    then have "of_int (round_half_even (x / 2 powi (E - 52))) * 2 powi (E - 52)
        \<le> (of_int (n - 1) :: rat) * 2 powi (E - 52)"
      by (intro mult_right_mono) simp_all
    also have "\<dots> < of_int n * 2 powi (E - 52)"
      by (intro mult_strict_right_mono) simp_all
    finally show ?thesis using round_double_grid [of x] False gx n(1) by simp
  next
    case ne: False
    with exle have exlt: "exponent x < E" by simp
    show ?thesis
    proof (cases "exponent x < - 1022")
      case True
      from round_double_binade(3) [OF x True] y show ?thesis by linarith
    next
      case False
      then have nx: "- 1022 \<le> exponent x" by simp
      show ?thesis
      proof (cases "exponent x + 1 < E")
        case True
        then have "(2 :: rat) powi (exponent x + 1) < 2 powi E" by (simp only: powi_less_iff)
        with round_double_binade(2) [OF x nx] yE(1) show ?thesis by linarith
      next
        case False
        with exlt have ex: "exponent x = E - 1" by simp
        then have gx: "grid x = E - 53" using nx x by (simp add: grid_def)
        show ?thesis
        proof (cases "2 powi E < y")
          case True
          have "(2 :: rat) powi (exponent x + 1) = 2 powi E" by (simp add: ex)
          with round_double_binade(2) [OF x nx] True show ?thesis by linarith
        next
          case False
          with yE(1) have yeq: "y = 2 powi E" by simp
          have s2: "(2 :: rat) powi E = 2 ^ 53 * 2 powi (E - 53)"
          proof -
            have "(2 :: rat) powi (E - 53) * 2 ^ 53 = 2 powi (E - 53 + int 53)" by (rule powi_mult_pow)
            then show ?thesis by (simp add: mult.commute)
          qed
          have "x / 2 powi (E - 53) \<le> y * (1 - 1 / 2 ^ 53) / 2 powi (E - 53)"
            using xy by (intro divide_right_mono) simp_all
          also have "\<dots> = 2 ^ 53 * (1 - 1 / 2 ^ 53)" by (simp add: yeq s2)
          also have "\<dots> = of_int (2 ^ 53 - 1)" by simp
          finally have "round_half_even (x / 2 powi (E - 53)) \<le> 2 ^ 53 - 1" by (rule rhe_le)
          then have "(of_int (round_half_even (x / 2 powi (E - 53))) :: rat) \<le> of_int (2 ^ 53 - 1)"
            by (simp only: of_int_le_iff)
          then have "of_int (round_half_even (x / 2 powi (E - 53))) * 2 powi (E - 53)
              \<le> (of_int (2 ^ 53 - 1) :: rat) * 2 powi (E - 53)"
            by (intro mult_right_mono) simp_all
          also have "\<dots> < 2 ^ 53 * 2 powi (E - 53)"
            by (intro mult_strict_right_mono) simp_all
          finally show ?thesis using round_double_grid [of x] \<open>x \<noteq> 0\<close> gx yeq s2 by simp
        qed
      qed
    qed
  qed
qed

lemma double_lt_1:
  assumes d: "is_double r" and r: "r < 1"
  shows "r \<le> 1 - 1 / 2 ^ 53"
proof (cases "r < 1 / 2")
  case True
  then show ?thesis by simp
next
  case False
  then have h: "2 powi (- 1) \<le> r" by (simp add: power_int_minus)
  have r1: "r < 2 powi (- 1 + 1)" using r by simp
  have ex: "exponent r = - 1" using h r1 by (rule exponent_unique)
  have "2 powi (- 1022) \<le> (2 :: rat) powi (- 1)" by (rule powi_le_iff [THEN iffD2]) simp
  with h have "2 powi (- 1022) \<le> r" by linarith
  with d obtain n where n: "r = of_int n * 2 powi (exponent r - 52)" "2 ^ 52 \<le> n" "n < 2 ^ 53"
    by (rule double_normal_repr)
  have p: "(2 :: rat) powi (- 53) = 1 / 2 ^ 53" by (simp add: power_int_minus inverse_eq_divide)
  have rn: "r = of_int n / 2 ^ 53" using n(1) by (simp add: ex p)
  have "n \<le> 2 ^ 53 - 1" using n(3) by simp
  then have "(of_int n :: rat) \<le> of_int (2 ^ 53 - 1)" by (simp only: of_int_le_iff)
  then have "(of_int n :: rat) / 2 ^ 53 \<le> of_int (2 ^ 53 - 1) / 2 ^ 53"
    by (intro divide_right_mono) simp_all
  then show ?thesis by (simp add: rn)
qed

section \<open>Facts about the arithmetic of numbers\<close>

lemma fl_double: "is_double x \<Longrightarrow> fl x = Finite x"
  by (simp add: is_double_def)

lemma fl_finite:
  assumes "\<bar>round_double x\<bar> < 2 ^ 1024"
  shows "fl x = Finite (round_double x)"
  using assms by (simp add: fl_def Let_def abs_less_iff)

lemma fl_bounded:
  assumes a: "is_double a" and b: "is_double b" and ax: "a \<le> x" and xb: "x \<le> b"
  shows "fl x = Finite (round_double x)" and "a \<le> round_double x" and "round_double x \<le> b"
proof -
  show l: "a \<le> round_double x" using a ax by (rule round_ge_double)
  show u: "round_double x \<le> b" using b xb by (rule round_le_double)
  have "\<bar>a\<bar> < 2 ^ 1024" "\<bar>b\<bar> < 2 ^ 1024" using a b by (simp_all add: is_double_iff)
  with l u have "\<bar>round_double x\<bar> < 2 ^ 1024" by (simp add: abs_less_iff)
  then show "fl x = Finite (round_double x)" by (rule fl_finite)
qed

lemma fl_int: "\<bar>n\<bar> \<le> 2 ^ 53 \<Longrightarrow> fl (of_int n) = Finite (of_int n)"
  by (rule fl_double) (rule is_double_int)

lemma fl_nat: "n \<le> 2 ^ 53 \<Longrightarrow> fl (of_nat n) = Finite (of_nat n)"
  by (rule fl_double) (rule is_double_nat)

lemma fl_0 [simp]: "fl 0 = Finite 0"
  using fl_int [of 0] by simp

lemma fl_1 [simp]: "fl 1 = Finite 1"
  using fl_int [of 1] by simp

lemma fl_numeral [simp]: "(numeral k :: int) \<le> 2 ^ 53 \<Longrightarrow> fl (numeral k) = Finite (numeral k)"
  using fl_int [of "numeral k"] by simp

lemma fl_neg_numeral [simp]:
  "(numeral k :: int) \<le> 2 ^ 53 \<Longrightarrow> fl (- numeral k) = Finite (- numeral k)"
  using fl_int [of "- numeral k"] by simp

lemma is_double_1 [simp]: "is_double 1"
  using is_double_int [of 1] by simp

lemma is_double_numeral [simp]: "(numeral k :: int) \<le> 2 ^ 53 \<Longrightarrow> is_double (numeral k)"
  using is_double_int [of "numeral k"] by simp

lemma is_double_neg_numeral [simp]: "(numeral k :: int) \<le> 2 ^ 53 \<Longrightarrow> is_double (- numeral k)"
  using is_double_int [of "- numeral k"] by simp

text \<open>The product of a draw and a count \<open>w\<close> is a number in \<open>[0, w)\<close>, also after rounding.\<close>

lemma draw_times_count:
  assumes d: "is_double r" and r0: "0 \<le> r" and r1: "r < 1"
    and w1: "1 \<le> w" and w: "w \<le> 2 ^ 53"
  shows "num_mul (Finite r) (Finite (of_nat w)) = Finite (round_double (r * of_nat w))"
    and "0 \<le> round_double (r * of_nat w)"
    and "round_double (r * of_nat w) < of_nat w"
proof -
  have dw: "is_double (of_nat w)" using w by (rule is_double_nat)
  have le: "r \<le> 1 - 1 / 2 ^ 53" using d r1 by (rule double_lt_1)
  have "(1 :: rat) \<le> of_nat w" using w1 by simp
  moreover have "(2 :: rat) powi (- 1022) < 1"
  proof -
    have "(2 :: rat) powi (- 1022) < 2 powi 0" by (rule powi_less_iff [THEN iffD2]) simp
    then show ?thesis by simp
  qed
  ultimately have big: "2 powi (- 1022) < (of_nat w :: rat)" by linarith
  have x0: "0 \<le> r * of_nat w" using r0 by simp
  have "r * of_nat w \<le> (1 - 1 / 2 ^ 53) * of_nat w"
    using le by (intro mult_right_mono) simp_all
  then have xw: "r * of_nat w \<le> of_nat w * (1 - 1 / 2 ^ 53)"
    by (simp only: mult.commute)
  show lt: "round_double (r * of_nat w) < of_nat w"
    using dw big x0 xw by (rule round_strict)
  show ge: "0 \<le> round_double (r * of_nat w)" using x0 by (rule round_double_nonneg)
  have "(of_nat w :: rat) \<le> of_nat (2 ^ 53)" using w by (simp only: of_nat_le_iff)
  then have "(of_nat w :: rat) < 2 ^ 1024" by simp
  with lt ge have "\<bar>round_double (r * of_nat w)\<bar> < 2 ^ 1024" by simp
  then have "fl (r * of_nat w) = Finite (round_double (r * of_nat w))" by (rule fl_finite)
  then show "num_mul (Finite r) (Finite (of_nat w)) = Finite (round_double (r * of_nat w))"
    by simp
qed

text \<open>\<^verbatim>\<open>getRandomInteger\<close> between two counts that doubles hold exactly.\<close>

lemma getRandomInteger_nat:
  assumes mM: "m \<le> M" and M: "M < 2 ^ 53"
    and d: "is_double (rng pos)" and r: "0 \<le> rng pos" "rng pos < 1"
  shows "getRandomInteger rng (Finite (of_nat m)) (Finite (of_nat M)) pos
           = (Finite (of_nat (m + nat \<lfloor>round_double (rng pos * of_nat (M - m + 1))\<rfloor>)), Suc pos)"
    and "m + nat \<lfloor>round_double (rng pos * of_nat (M - m + 1))\<rfloor> \<le> M"
proof -
  let ?w = "M - m + 1"
  let ?y = "round_double (rng pos * of_nat ?w)"
  let ?k = "nat \<lfloor>?y\<rfloor>"
  have w: "1 \<le> ?w" "?w \<le> 2 ^ 53" using M by simp_all
  have "(of_nat M :: rat) + - of_nat m = of_nat (M - m)" using mM by (simp add: of_nat_diff)
  moreover have "fl (of_nat (M - m)) = Finite (of_nat (M - m))" using M by (intro fl_nat) simp
  ultimately have sub: "num_sub (Finite (of_nat M)) (Finite (of_nat m)) = Finite (of_nat (M - m))"
    by (simp only: num_sub_def num_neg.simps num_add.simps)
  have "(of_nat (M - m) :: rat) + 1 = of_nat ?w" by simp
  moreover have "fl (of_nat ?w) = Finite (of_nat ?w)" using w(2) by (rule fl_nat)
  ultimately have add1: "num_add (Finite (of_nat (M - m))) (Finite 1) = Finite (of_nat ?w)"
    by (simp only: num_add.simps)
  note mul = draw_times_count [OF d r w]
  have y0: "0 \<le> \<lfloor>?y\<rfloor>" using mul(2) by simp
  then have fk: "(of_int \<lfloor>?y\<rfloor> :: rat) = of_nat ?k" by simp
  have "?y < of_int (int ?w)" using mul(3) by simp
  then have "\<lfloor>?y\<rfloor> < int ?w" by (simp only: floor_less_iff)
  with y0 have k: "?k \<le> M - m" by linarith
  then show le: "m + ?k \<le> M" using mM by simp
  have "(of_nat ?k :: rat) + of_nat m = of_nat (m + ?k)" by simp
  moreover have "fl (of_nat (m + ?k)) = Finite (of_nat (m + ?k))" using le M by (intro fl_nat) linarith
  ultimately have add2: "num_add (Finite (of_nat ?k)) (Finite (of_nat m)) = Finite (of_nat (m + ?k))"
    by (simp only: num_add.simps)
  show "getRandomInteger rng (Finite (of_nat m)) (Finite (of_nat M)) pos
           = (Finite (of_nat (m + ?k)), Suc pos)"
    by (simp only: getRandomInteger_def Math_random_def Let_def prod.case sub add1 mul(1)
        Math_floor.simps fk add2)
qed

lemma getRandomInteger_pos: "snd (getRandomInteger rng a b pos) = Suc pos"
  by (simp add: getRandomInteger_def Math_random_def)

section \<open>Facts about the generators\<close>

lemma enum_upper:
  assumes ne: "enumValues \<noteq> []" and len: "length enumValues \<le> 2 ^ 53"
  shows "num_sub (Finite (of_nat (length enumValues))) (Finite 1)
           = Finite (of_nat (length enumValues - 1))"
proof -
  have "(of_nat (length enumValues) :: rat) + - 1 = of_nat (length enumValues - 1)"
    using ne by (cases enumValues) simp_all
  moreover have "fl (of_nat (length enumValues - 1)) = Finite (of_nat (length enumValues - 1))"
    using len by (intro fl_nat) linarith
  ultimately show ?thesis by (simp only: num_sub_def num_neg.simps num_add.simps)
qed

lemma generateData_enum:
  assumes en: "schema_enum schema = Some enumValues" and ne: "enumValues \<noteq> []"
    and len: "length enumValues \<le> 2 ^ 53"
    and d: "is_double (rng pos)" and r: "0 \<le> rng pos" "rng pos < 1"
  shows "generateData ns rng schema pos
           = Some (Inr (enumValues ! nat \<lfloor>round_double (rng pos * of_nat (length enumValues))\<rfloor>, Suc pos))"
    and "nat \<lfloor>round_double (rng pos * of_nat (length enumValues))\<rfloor> < length enumValues"
proof -
  let ?n = "length enumValues"
  let ?k = "nat \<lfloor>round_double (rng pos * of_nat ?n)\<rfloor>"
  have n: "0 < ?n" using ne by simp
  then have w: "?n - 1 - 0 + 1 = ?n" by simp
  have M: "?n - 1 < 2 ^ 53" using len n by linarith
  note g = getRandomInteger_nat [of 0 "?n - 1" rng pos, OF _ M d r, unfolded w]
  have gi: "getRandomInteger rng (Finite 0) (Finite (of_nat (?n - 1))) pos = (Finite (of_nat ?k), Suc pos)"
    using g(1) by simp
  show lt: "?k < ?n" using g(2) n by linarith
  then have ix: "js_index enumValues (Finite (of_nat ?k)) = enumValues ! ?k"
    by (simp add: js_index_def)
  show "generateData ns rng schema pos = Some (Inr (enumValues ! ?k, Suc pos))"
    by (subst generateData.simps) (simp only: en option.case enum_upper [OF ne len] gi prod.case Let_def ix)
qed

lemma generateArray_eq:
  assumes a: "minItems = (case schema_minItems schema of Some n \<Rightarrow> n | None \<Rightarrow> 0)"
    and b: "maxItems = (case schema_maxItems schema of Some n \<Rightarrow> n | None \<Rightarrow> minItems + 10)"
  shows "generateArray ns rng schema pos =
     (if minItems = 0 \<and> maxItems = 0 then Some (Inr (JArr [], pos))
      else (case getRandomInteger rng (Finite (of_nat minItems)) (Finite (of_nat maxItems)) pos of
              (len, pos') \<Rightarrow>
                (case generateArray_loop ns
                        (\<lambda>p. case schema_items schema of
                                None \<Rightarrow> Some (Inl TypeError)
                              | Some itemsSchema \<Rightarrow> generateData ns rng itemsSchema p)
                        (case schema_uniqueItems schema of Some b \<Rightarrow> b | None \<Rightarrow> False)
                        len [] pos' of
                   None \<Rightarrow> None
                 | Some (Inl e) \<Rightarrow> Some (Inl e)
                 | Some (Inr (result, pos'')) \<Rightarrow> Some (Inr (JArr result, pos'')))))"
  unfolding b a by (simp add: generateArray.simps Let_def)

lemma generateArray_loop_stuck:
  assumes run: "generateArray_loop ns gen u len result pos = Some y"
    and gen: "\<forall>p. \<exists>p'. gen p = Some (Inr (v, p'))"
    and u: "u" and v: "v \<in> set result" and lt: "num_less (Finite (of_nat (length result))) len"
  shows False
proof -
  have "(\<forall>p. \<exists>p'. gen p = Some (Inr (v, p'))) \<longrightarrow> u \<longrightarrow> v \<in> set result
          \<longrightarrow> num_less (Finite (of_nat (length result))) len \<longrightarrow> False"
  proof (rule generateArray_loop.raw_induct
      [where P = "\<lambda>ns gen u len result pos y.
         (\<forall>p. \<exists>p'. gen p = Some (Inr (v, p'))) \<longrightarrow> u \<longrightarrow> v \<in> set result
          \<longrightarrow> num_less (Finite (of_nat (length result))) len \<longrightarrow> False", OF _ run])
    fix loop :: "(rat \<Rightarrow> string) \<Rightarrow> (nat \<Rightarrow> jsval outcome) \<Rightarrow> bool \<Rightarrow> number \<Rightarrow> jsval list \<Rightarrow> nat
        \<Rightarrow> (error + jsval list \<times> nat) option"
      and ns :: "rat \<Rightarrow> string" and gen :: "nat \<Rightarrow> jsval outcome" and u :: bool and len :: number
      and result :: "jsval list" and pos :: nat and y :: "error + jsval list \<times> nat"
    assume IH: "\<And>ns gen u len result pos y. loop ns gen u len result pos = Some y \<Longrightarrow>
         (\<forall>p. \<exists>p'. gen p = Some (Inr (v, p'))) \<longrightarrow> u \<longrightarrow> v \<in> set result
          \<longrightarrow> num_less (Finite (of_nat (length result))) len \<longrightarrow> False"
    assume body: "(if num_less (Finite (of_nat (length result))) len then
        (case gen pos of
           None \<Rightarrow> None
         | Some (Inl e) \<Rightarrow> Some (Inl e)
         | Some (Inr (item, pos')) \<Rightarrow>
             if u then
               (let isUnique = \<not> list_ex (\<lambda>existingItem.
                      JSON_stringify ns existingItem = JSON_stringify ns item) result
                in if isUnique
                   then loop ns gen u len (result @ [item]) pos'
                   else loop ns gen u len result pos')
             else loop ns gen u len (result @ [item]) pos')
      else Some (Inr (result, pos))) = Some y"
    show "(\<forall>p. \<exists>p'. gen p = Some (Inr (v, p'))) \<longrightarrow> u \<longrightarrow> v \<in> set result
          \<longrightarrow> num_less (Finite (of_nat (length result))) len \<longrightarrow> False"
    proof (intro impI)
      assume g: "\<forall>p. \<exists>p'. gen p = Some (Inr (v, p'))" and u: u and v: "v \<in> set result"
        and lt: "num_less (Finite (of_nat (length result))) len"
      from g obtain p' where p': "gen pos = Some (Inr (v, p'))" by blast
      from v have ex: "list_ex (\<lambda>existingItem. JSON_stringify ns existingItem = JSON_stringify ns v) result"
        by (auto simp: list_ex_iff)
      from body lt p' u ex have "loop ns gen u len result p' = Some y" by simp
      from IH [OF this] g u v lt show False by blast
    qed
  qed
  with gen u v lt show False by blast
qed

lemma generateArray_loop_post:
  assumes run: "generateArray_loop ns gen u len result pos = Some (Inr (res, pos'))"
    and len: "len = Finite (of_nat n)" and le: "length result \<le> n"
    and d: "u \<longrightarrow> distinct (map (JSON_stringify ns) result)"
  shows "length res = n \<and> (u \<longrightarrow> distinct (map (JSON_stringify ns) res))"
proof -
  let ?P = "\<lambda>(ns :: rat \<Rightarrow> string) (gen :: nat \<Rightarrow> jsval outcome) u len result (pos :: nat)
       (y :: error + jsval list \<times> nat). \<forall>res (pos' :: nat). y = Inr (res, pos') \<longrightarrow> len = Finite (of_nat n)
       \<longrightarrow> length result \<le> n \<longrightarrow> (u \<longrightarrow> distinct (map (JSON_stringify ns) result))
       \<longrightarrow> length res = n \<and> (u \<longrightarrow> distinct (map (JSON_stringify ns) res))"
  have "?P ns gen u len result pos (Inr (res, pos'))"
  proof (rule generateArray_loop.raw_induct [where P = ?P, OF _ run], goal_cases)
    case (1 loop ns gen u len result pos y)
    note IH = 1(1) and body = 1(2)
    show "?P ns gen u len result pos y"
    proof (intro allI impI)
      fix res pos'
      assume y: "y = Inr (res, pos')" and len: "len = Finite (of_nat n)" and le: "length result \<le> n"
        and d: "u \<longrightarrow> distinct (map (JSON_stringify ns) result)"
      show "length res = n \<and> (u \<longrightarrow> distinct (map (JSON_stringify ns) res))"
      proof (cases "num_less (Finite (of_nat (length result))) len")
        case False
        with body y have "res = result" by simp
        moreover from False len le have "length result = n" by simp
        ultimately show ?thesis using d by simp
      next
        case True
        with len have lt: "length result < n" by simp
        from body True y obtain item p where gp: "gen pos = Some (Inr (item, p))"
          by (auto split: option.splits sum.splits)
        show ?thesis
        proof (cases "u \<and> list_ex (\<lambda>existingItem.
                      JSON_stringify ns existingItem = JSON_stringify ns item) result")
          case True
          with body \<open>num_less (Finite (of_nat (length result))) len\<close> gp
          have "loop ns gen u len result p = Some y" by simp
          from IH [OF this] y len le d show ?thesis by blast
        next
          case False
          with body \<open>num_less (Finite (of_nat (length result))) len\<close> gp
          have call: "loop ns gen u len (result @ [item]) p = Some y"
            by (cases u) (simp_all add: Let_def)
          have le': "length (result @ [item]) \<le> n" using lt by simp
          have d': "u \<longrightarrow> distinct (map (JSON_stringify ns) (result @ [item]))"
            using False d by (auto simp: list_ex_iff)
          from IH [OF call] y len le' d' show ?thesis by blast
        qed
      qed
    qed
  qed
  with len le d show ?thesis by blast
qed

text \<open>Writes and allocations keep the cells below an address that they do not touch.\<close>

lemma take_push: "n \<le> a \<Longrightarrow> take n (push h a v) = take n h"
  by (simp add: push_def split: cell.splits)

lemma length_push: "length (push h a v) = length h"
  by (simp add: push_def split: cell.splits)

lemma take_assign: "n \<le> a \<Longrightarrow> take n (assign h a key v) = take n h"
  by (simp add: assign_def split: cell.splits)

lemma length_assign: "length (assign h a key v) = length h"
  by (simp add: assign_def split: cell.splits)

lemma frame_refl: "frame n h h"
  by (simp add: frame_def)

lemma frame_trans: "frame n h h1 \<Longrightarrow> frame n h1 h2 \<Longrightarrow> frame n h h2"
  by (simp add: frame_def)

lemma frame_alloc: "n \<le> length h \<Longrightarrow> frame n h (h @ [c])"
  by (simp add: frame_def)

lemma frame_push: "n \<le> a \<Longrightarrow> frame n h (push h a v)"
  by (simp add: frame_def take_push length_push)

lemma frame_assign: "n \<le> a \<Longrightarrow> frame n h (assign h a key v)"
  by (simp add: frame_def take_assign length_assign)

lemma frame_length: "frame n h h' \<Longrightarrow> a < length h \<Longrightarrow> a < length h'"
  by (simp add: frame_def)

lemma generate_h_frame:
  "(\<forall>ns rng schema h pos r h' pos' n.
      generateData_h fuel ns rng schema h pos = Some (r, h', pos') \<longrightarrow> n \<le> length h \<longrightarrow> frame n h h')
   \<and> (\<forall>ns rng schema h pos r h' pos' n.
      generateArray_h fuel ns rng schema h pos = Some (r, h', pos') \<longrightarrow> n \<le> length h \<longrightarrow> frame n h h')
   \<and> (\<forall>ns rng itemsSchema uniqueItems len result h pos r h' pos' n.
      generateArray_loop_h fuel ns rng itemsSchema uniqueItems len result h pos = Some (r, h', pos')
        \<longrightarrow> n \<le> result \<longrightarrow> result < length h \<longrightarrow> frame n h h')
   \<and> (\<forall>ns rng schema h pos r h' pos' n.
      generateObject_h fuel ns rng schema h pos = Some (r, h', pos') \<longrightarrow> n \<le> length h \<longrightarrow> frame n h h')
   \<and> (\<forall>ns rng properties required keys result h pos r h' pos' n.
      generateObject_loop_h fuel ns rng properties required keys result h pos = Some (r, h', pos')
        \<longrightarrow> n \<le> result \<longrightarrow> result < length h \<longrightarrow> frame n h h')"
proof (induction fuel)
  case 0
  show ?case by simp
next
  case (Suc fuel)
  note IH = Suc
  note D = IH [THEN conjunct1, rule_format]
  note A = IH [THEN conjunct2, THEN conjunct1, rule_format]
  note AL = IH [THEN conjunct2, THEN conjunct2, THEN conjunct1, rule_format]
  note O = IH [THEN conjunct2, THEN conjunct2, THEN conjunct2, THEN conjunct1, rule_format]
  note OL = IH [THEN conjunct2, THEN conjunct2, THEN conjunct2, THEN conjunct2, rule_format]
  have 1: "frame n h h'"
    if "generateData_h (Suc fuel) ns rng schema h pos = Some (r, h', pos')" "n \<le> length h"
    for ns rng schema h pos r h' pos' n
    using that A O
    by (auto simp: Let_def frame_refl split: if_splits sum.splits prod.splits option.splits)
  have 2: "frame n h h'"
    if "generateArray_h (Suc fuel) ns rng schema h pos = Some (r, h', pos')" "n \<le> length h"
    for ns rng schema h pos r h' pos' n
  proof -
    have "frame n (h @ [CArr []]) h'"
      if "generateArray_loop_h fuel ns rng itemsSchema uniqueItems len (length h) (h @ [CArr []]) p
            = Some (r, h', pos')" for itemsSchema uniqueItems len p
      using that \<open>n \<le> length h\<close> by (rule AL) simp
    then have "frame n h h'"
      if "generateArray_loop_h fuel ns rng itemsSchema uniqueItems len (length h) (h @ [CArr []]) p
            = Some (r, h', pos')" for itemsSchema uniqueItems len p
      using that frame_alloc [OF \<open>n \<le> length h\<close>] frame_trans by blast
    with that show ?thesis
      by (auto simp: Let_def frame_refl frame_alloc split: if_splits sum.splits prod.splits)
  qed
  have 3: "frame n h h'"
    if run: "generateArray_loop_h (Suc fuel) ns rng itemsSchema uniqueItems len result h pos = Some (r, h', pos')"
      and n: "n \<le> result" and res: "result < length h"
    for ns rng itemsSchema uniqueItems len result h pos r h' pos' n
  proof (cases "array_elements h (HRef result)")
    case (Inl e)
    with run show ?thesis by (simp add: frame_refl)
  next
    case (Inr elems)
    show ?thesis
    proof (cases "num_less (Finite (of_nat (length elems))) len")
      case False
      with run Inr show ?thesis by (simp add: frame_refl)
    next
      case True
      from run Inr True obtain ri h1 p1 where g: "generateData_h fuel ns rng itemsSchema h pos = Some (ri, h1, p1)"
        by (cases "generateData_h fuel ns rng itemsSchema h pos") auto
      have f1: "frame n h h1" using g n res by (intro D) simp_all
      have res1: "result < length h1" using f1 res by (rule frame_length)
      have step: "frame n h h'" if "generateArray_loop_h fuel ns rng itemsSchema uniqueItems len result h2 p1
            = Some (r, h', pos')" "frame n h1 h2" "length h2 = length h1" for h2
      proof -
        have "frame n h2 h'" using that(1) n res1 that(3) by (intro AL) simp_all
        with f1 that(2) show ?thesis using frame_trans by blast
      qed
      show ?thesis
      proof (cases ri)
        case (Inl e)
        with run Inr True g f1 show ?thesis by simp
      next
        case item: (Inr item)
        from run Inr True g item
        consider (err) "h' = h1"
          | (pushed) "generateArray_loop_h fuel ns rng itemsSchema uniqueItems len result
                        (push h1 result item) p1 = Some (r, h', pos')"
          | (rejected) "generateArray_loop_h fuel ns rng itemsSchema uniqueItems len result h1 p1
                        = Some (r, h', pos')"
          by (auto split: if_splits sum.splits)
        then show ?thesis
        proof cases
          case err
          with f1 show ?thesis by simp
        next
          case pushed
          then show ?thesis by (rule step [OF _ frame_push [OF n] length_push])
        next
          case rejected
          then show ?thesis by (rule step [OF _ frame_refl refl])
        qed
      qed
    qed
  qed
  have 4: "frame n h h'"
    if "generateObject_h (Suc fuel) ns rng schema h pos = Some (r, h', pos')" "n \<le> length h"
    for ns rng schema h pos r h' pos' n
  proof -
    have "frame n h h'"
      if "generateObject_loop_h fuel ns rng properties required keys (length h) (h @ [CObj []]) p
            = Some (r, h', pos')" for properties required keys p
    proof -
      have "frame n (h @ [CObj []]) h'" using that \<open>n \<le> length h\<close> by (rule OL) simp
      with frame_alloc [OF \<open>n \<le> length h\<close>] show ?thesis using frame_trans by blast
    qed
    with that show ?thesis
      by (auto simp: Let_def frame_refl frame_alloc split: if_splits sum.splits prod.splits)
  qed
  have 5: "frame n h h'"
    if run: "generateObject_loop_h (Suc fuel) ns rng properties required keys result h pos = Some (r, h', pos')"
      and n: "n \<le> result" and res: "result < length h"
    for ns rng properties required keys result h pos r h' pos' n
  proof (cases keys)
    case Nil
    with run show ?thesis by (simp add: frame_refl)
  next
    case (Cons key rest)
    from run [unfolded Cons]
    consider (skip) p where "generateObject_loop_h fuel ns rng properties required rest result h p
                        = Some (r, h', pos')"
      | (stop) "h' = h"
      | (err) e p where "generateData_h fuel ns rng (get_property h properties key) h p = Some (Inl e, h', pos')"
      | (ok) v h1 p p1 where "generateData_h fuel ns rng (get_property h properties key) h p = Some (Inr v, h1, p1)"
          "generateObject_loop_h fuel ns rng properties required rest result (assign h1 result key v) p1
                        = Some (r, h', pos')"
      by (auto simp: Let_def split: if_splits sum.splits prod.splits option.splits)
    then show ?thesis
    proof cases
      case skip
      then show ?thesis using n res by (rule OL)
    next
      case stop
      then show ?thesis by (simp add: frame_refl)
    next
      case err
      then show ?thesis using n res by (intro D) simp_all
    next
      case ok
      have f1: "frame n h h1" using ok(1) n res by (intro D) simp_all
      have res1: "result < length h1" using f1 res by (rule frame_length)
      have "frame n (assign h1 result key v) h'"
        using ok(2) n res1 by (intro OL) (simp_all add: length_assign)
      with f1 frame_assign [OF n, of h1 key v] show ?thesis using frame_trans by blast
    qed
  qed
  from 1 2 3 4 5 show ?case by blast
qed

lemma fl_minus_1 [simp]: "fl (- 1) = Finite (- 1)"
  using fl_int [of "- 1"] by simp

lemma is_double_minus_1 [simp]: "is_double (- 1)"
  using is_double_int [of "- 1"] by simp

lemma is_double_half [simp]: "is_double (1 / 2)"
proof -
  have "round_double (of_int 1 * 2 powi (- 1)) = of_int 1 * 2 powi (- 1)"
    by (rule round_double_dyadic) simp_all
  then have "round_double (1 / 2) = 1 / 2" by (simp add: power_int_minus)
  then show ?thesis by (simp add: is_double_iff)
qed

lemma fl_half [simp]: "fl (1 / 2) = Finite (1 / 2)"
  by (rule fl_double) simp

text \<open>The double below \<open>1 / 3\<close>, which is \<^verbatim>\<open>0.3333333333333333\<close>, and its product with \<open>3\<close>,
  which rounds to \<open>1\<close>.\<close>

lemma is_double_below_third: "is_double (6004799503160661 / 2 ^ 54)"
proof -
  have "round_double (of_int 6004799503160661 * 2 powi (- 54)) = of_int 6004799503160661 * 2 powi (- 54)"
    by (rule round_double_dyadic) simp_all
  then have "round_double (6004799503160661 / 2 ^ 54) = 6004799503160661 / 2 ^ 54"
    by (simp add: power_int_minus)
  then show ?thesis by (simp add: is_double_iff)
qed

lemma round_three_below_third: "round_double (6004799503160661 / 2 ^ 54 * 3) = 1"
proof -
  let ?x = "6004799503160661 / 2 ^ 54 * 3 :: rat"
  have "2 powi (- 1) \<le> ?x" by (simp add: power_int_minus)
  moreover have "?x < 2 powi (- 1 + 1)" by simp
  ultimately have e: "exponent ?x = - 1" by (rule exponent_unique)
  have ax: "\<bar>?x\<bar> = ?x" by simp
  have g: "grid ?x = - 53" unfolding grid_def ax e by simp
  have "?x / 2 powi (- 53) = of_int 9007199254740991 + 1 / 2" by (simp add: power_int_minus)
  then have "round_half_even (?x / 2 powi (- 53)) = 9007199254740992"
    by (simp only: rhe_half) simp
  then have "round_double ?x = of_int 9007199254740992 * 2 powi (- 53)"
    unfolding round_double_def g by simp
  then show ?thesis by (simp add: power_int_minus)
qed

section \<open>Enumerated nodes\<close>

text \<open>
  C1. For a node whose \<^verbatim>\<open>enum\<close> is present and non-empty, and a draw \<open>r\<close> that
  \<^verbatim>\<open>Math.random()\<close> can return, the generator returns the element of \<^verbatim>\<open>enum\<close> at the index
  \<^verbatim>\<open>Math.floor(r * len)\<close>, where the product is the rounded one of the doubles. The index
  is below \<open>len\<close>, so the result is a member of the enum sequence; one draw is consumed and
  nothing is thrown. The result depends on no other attribute of the node, the declared type
  included. The index is that of the uniform choice: it is \<open>i\<close> whenever \<open>r * len\<close> lies
  between \<open>i\<close> and \<open>(i + 1) * (1 - 2\<^sup>-\<^sup>5\<^sup>3)\<close>, and only if it lies between
  \<open>i * (1 - 2\<^sup>-\<^sup>5\<^sup>3)\<close> and \<open>i + 1\<close>, so that every index has the draws of an interval of
  length \<open>1 / len\<close>, up to the rounding of one product. An array of JavaScript has fewer
  than \<open>2\<^sup>3\<^sup>2\<close> elements; the statement needs that it has at most \<open>2\<^sup>5\<^sup>3\<close>.
\<close>

theorem generateRandomData_enum_member:
  assumes en: "schema_enum schema = Some enumValues" and ne: "enumValues \<noteq> []"
    and len: "length enumValues \<le> 2 ^ 53"
    and d: "is_double (rng pos)" and r: "0 \<le> rng pos" "rng pos < 1"
    and k: "k = nat \<lfloor>round_double (rng pos * of_nat (length enumValues))\<rfloor>"
  shows "generateRandomData ns rng schema pos = Some (Inr (enumValues ! k, Suc pos))
      \<and> k < length enumValues
      \<and> enumValues ! k \<in> set enumValues
      \<and> (\<forall>i. (of_nat i \<le> rng pos * of_nat (length enumValues)
                \<and> rng pos * of_nat (length enumValues) \<le> of_nat (Suc i) * (1 - 1 / 2 ^ 53)
              \<longrightarrow> k = i)
             \<and> (k = i \<longrightarrow> of_nat i * (1 - 1 / 2 ^ 53) \<le> rng pos * of_nat (length enumValues)
                         \<and> rng pos * of_nat (length enumValues) < of_nat (Suc i)))"
proof -
  let ?n = "length enumValues"
  let ?x = "rng pos * of_nat ?n"
  let ?y = "round_double ?x"
  note g = generateData_enum(1) [where rng = rng and pos = pos and ns = ns, OF en ne len d r]
    generateData_enum(2) [where rng = rng and pos = pos, OF en ne len d r]
  have run: "generateRandomData ns rng schema pos = Some (Inr (enumValues ! k, Suc pos))"
    unfolding generateRandomData_def k by (rule g(1))
  have lt: "k < ?n" unfolding k by (rule g(2))
  have x0: "0 \<le> ?x" using r by simp
  have y0: "0 \<le> ?y" using x0 by (rule round_double_nonneg)
  have small: "(2 :: rat) powi (- 1022) < 1"
  proof -
    have "(2 :: rat) powi (- 1022) < 2 powi 0" by (rule powi_less_iff [THEN iffD2]) simp
    then show ?thesis by simp
  qed
  have dbl: "is_double (of_nat j)" if "j \<le> ?n" for j
    using that len by (intro is_double_nat) linarith
  have big: "(2 :: rat) powi (- 1022) < of_nat j" if "0 < j" for j
  proof -
    from that have "(1 :: rat) \<le> of_nat j" by simp
    with small show ?thesis by linarith
  qed
  have up: "k = i" if lo: "of_nat i \<le> ?x" and hi: "?x \<le> of_nat (Suc i) * (1 - 1 / 2 ^ 53)" for i
  proof -
    have "?x < of_nat ?n" using r ne by simp
    with lo have "(of_nat i :: rat) < of_nat ?n" by linarith
    then have i: "i < ?n" by (simp only: of_nat_less_iff)
    have di: "is_double (of_nat i)" by (rule dbl) (use i in simp)
    have ds: "is_double (of_nat (Suc i))" by (rule dbl) (use i in simp)
    have "(of_nat i :: rat) \<le> ?y" using di lo by (rule round_ge_double)
    then have "of_int (int i) \<le> ?y" by simp
    then have a: "int i \<le> \<lfloor>?y\<rfloor>" by (simp only: le_floor_iff)
    have "?y < of_nat (Suc i)" using ds big x0 hi by (rule round_strict) simp
    then have "?y < of_int (int (Suc i))" by (simp only: of_int_of_nat_eq)
    then have b: "\<lfloor>?y\<rfloor> < int (Suc i)" by (simp only: floor_less_iff)
    from a b show ?thesis unfolding k by linarith
  qed
  have down: "of_nat i * (1 - 1 / 2 ^ 53) \<le> ?x \<and> ?x < of_nat (Suc i)" if ki: "k = i" for i
  proof -
    have i: "i < ?n" using lt ki by simp
    have di: "is_double (of_nat i)" by (rule dbl) (use i in simp)
    have ds: "is_double (of_nat (Suc i))" by (rule dbl) (use i in simp)
    have f0: "0 \<le> \<lfloor>?y\<rfloor>" using y0 by simp
    have fy: "\<lfloor>?y\<rfloor> = int i" using ki f0 unfolding k by linarith
    have "of_int (int i) \<le> ?y \<and> ?y < of_int (int i) + 1"
      by (rule floor_eq_iff [THEN iffD1]) (rule fy)
    then have iy: "of_nat i \<le> ?y" and yi: "?y < of_nat (Suc i)" by simp_all
    have xs: "?x < of_nat (Suc i)" using ds yi by (rule round_less_double)
    have "of_nat i * (1 - 1 / 2 ^ 53) \<le> ?x"
    proof (cases "i = 0")
      case True
      with x0 show ?thesis by simp
    next
      case False
      then have i0: "0 < i" by simp
      show ?thesis
      proof (rule ccontr)
        assume "\<not> of_nat i * (1 - 1 / 2 ^ 53) \<le> ?x"
        then have "?x \<le> of_nat i * (1 - 1 / 2 ^ 53)" by simp
        with di big [OF i0] x0 have "?y < of_nat i" by (rule round_strict)
        with iy show False by simp
      qed
    qed
    with xs show ?thesis by simp
  qed
  have "enumValues ! k \<in> set enumValues" using lt by simp
  with run lt up down show ?thesis by blast
qed

theorem generateRandomData_enum_member_witness:
  "generateRandomData (\<lambda>q. []) (\<lambda>i. 6004799503160661 / 2 ^ 54)
     (Schema (Some [JStr ''red'', JStr ''green'', JStr ''blue'']) (Some ''integer'')
        None None None None None None None None None None) 0
   = Some (Inr (JStr ''green'', 1))"
  using generateRandomData_enum_member
    [of "Schema (Some [JStr ''red'', JStr ''green'', JStr ''blue'']) (Some ''integer'')
           None None None None None None None None None None"
        "[JStr ''red'', JStr ''green'', JStr ''blue'']" "\<lambda>i. 6004799503160661 / 2 ^ 54" 0 1 "\<lambda>q. []"]
    is_double_below_third round_three_below_third
  by simp

text \<open>
  C10. When \<^verbatim>\<open>enum\<close> is present and empty the enum branch is still taken, whatever the
  declared type: \<^verbatim>\<open>getRandomInteger(0, -1)\<close> is \<open>0\<close> for every draw, the empty array has
  no element at index \<open>0\<close>, and the generator returns \<^verbatim>\<open>undefined\<close> without throwing.
\<close>

theorem generateRandomData_empty_enum:
  assumes "schema_enum schema = Some []"
  shows "getRandomInteger rng (Finite 0)
             (num_sub (Finite (of_nat (length ([] :: jsval list)))) (Finite 1)) pos
           = (Finite 0, Suc pos)
     \<and> js_index [] (Finite 0) = JUndefined
     \<and> generateRandomData ns rng schema pos = Some (Inr (JUndefined, Suc pos))"
  using assms
  by (simp add: generateRandomData_def generateData.simps getRandomInteger_def Math_random_def
      num_sub_def js_index_def)

theorem generateRandomData_empty_enum_witness:
  "generateRandomData (\<lambda>q. []) (\<lambda>i. 1 / 2)
     (Schema (Some []) (Some ''boolean'') None None None None None None None None None None) 0
   = Some (Inr (JUndefined, 1))"
  using generateRandomData_empty_enum
    [of "Schema (Some []) (Some ''boolean'') None None None None None None None None None None"
        "\<lambda>i. 1 / 2" 0 "\<lambda>q. []"]
  by simp

section \<open>Scalar nodes\<close>

text \<open>
  C7. A node without \<^verbatim>\<open>enum\<close> whose type is missing or is none of the six known types
  makes the generator return \<^verbatim>\<open>null\<close>; nothing is thrown and no draw is consumed.
\<close>

theorem generateRandomData_unknown_type:
  assumes "schema_enum schema = None"
    and "schema_type schema \<notin> {Some ''integer'', Some ''number'', Some ''string'',
            Some ''boolean'', Some ''array'', Some ''object''}"
  shows "generateRandomData ns rng schema pos = Some (Inr (JNull, pos))"
  using assms by (simp add: generateRandomData_def generateData.simps)

theorem generateRandomData_unknown_type_witness:
  "generateRandomData (\<lambda>q. []) (\<lambda>i. 0)
     (Schema None (Some ''date'') None None None None None None None None None None) 0
     = Some (Inr (JNull, 0))
   \<and> generateRandomData (\<lambda>q. []) (\<lambda>i. 0)
     (Schema None None None None None None None None None None None None) 0
     = Some (Inr (JNull, 0))"
  using generateRandomData_unknown_type
    [of "Schema None (Some ''date'') None None None None None None None None None None"
        "\<lambda>q. []" "\<lambda>i. 0" 0]
    generateRandomData_unknown_type
    [of "Schema None None None None None None None None None None None None"
        "\<lambda>q. []" "\<lambda>i. 0" 0]
  by simp

section \<open>Array nodes\<close>

text \<open>
  C5. When \<^verbatim>\<open>minItems\<close> and \<^verbatim>\<open>maxItems\<close> are both \<open>0\<close> after the defaults,
  \<^verbatim>\<open>generateArray\<close> returns the empty array at once: the position of the draws is
  unchanged, so no length is drawn, and the result is the same for every \<^verbatim>\<open>items\<close>
  (also a missing one, or one whose generation would never end), so the item generator is
  not called.
\<close>

theorem generateArray_empty_immediately:
  assumes "(case schema_minItems schema of Some n \<Rightarrow> n | None \<Rightarrow> 0) = 0"
    and "(case schema_maxItems schema of Some n \<Rightarrow> n
          | None \<Rightarrow> (case schema_minItems schema of Some n \<Rightarrow> n | None \<Rightarrow> 0) + 10) = 0"
  shows "generateArray ns rng schema pos = Some (Inr (JArr [], pos))"
  using assms by (simp add: generateArray.simps Let_def split: option.splits)

theorem generateArray_empty_immediately_witness:
  "generateArray (\<lambda>q. []) (\<lambda>i. 1 / 2)
     (Schema None (Some ''array'') None None None None (Some 0) (Some 0) None
        (Some (Schema None (Some ''integer'') None None None None None None None None None None))
        None None) 0
   = Some (Inr (JArr [], 0))"
  using generateArray_empty_immediately
    [of "Schema None (Some ''array'') None None None None (Some 0) (Some 0) None
        (Some (Schema None (Some ''integer'') None None None None None None None None None None))
        None None" "\<lambda>q. []" "\<lambda>i. 1 / 2" 0]
  by simp

text \<open>
  C8. An array node with \<^verbatim>\<open>uniqueItems\<close> true, at least two items required, and items
  drawn from an enum of one element: for every sequence of draws that \<^verbatim>\<open>Math.random()\<close>
  can return, the generator never returns. The loop accepts the element once and then
  rejects it forever; nothing bounds the number of iterations. The node with
  \<open>minItems = maxItems = 2\<close> is an instance. The counts are numbers that a double holds
  exactly, as the lengths of arrays are.
\<close>

theorem generateRandomData_unique_never_returns:
  assumes en: "schema_enum schema = None" and ty: "schema_type schema = Some ''array''"
    and u: "schema_uniqueItems schema = Some True"
    and it: "schema_items schema = Some itemsSchema"
    and ie: "schema_enum itemsSchema = Some [v]"
    and m: "schema_minItems schema = Some m" and m2: "2 \<le> m"
    and M: "schema_maxItems schema = Some M" and mM: "m \<le> M" and M53: "M < 2 ^ 53"
    and r: "unit_draws rng"
  shows "generateRandomData ns rng schema pos = None"
proof -
  have r': "is_double (rng p)" "0 \<le> rng p" "rng p < 1" for p
    using r by (simp_all add: unit_draws_def)
  let ?gen = "\<lambda>p. case schema_items schema of
                  None \<Rightarrow> Some (Inl TypeError)
                | Some itemsSchema \<Rightarrow> generateData ns rng itemsSchema p"
  have "?gen p = Some (Inr (v, Suc p))" for p
  proof -
    define k where "k = nat \<lfloor>round_double (rng p * of_nat (length [v]))\<rfloor>"
    have one: "length [v] \<le> 2 ^ 53" by simp
    have "generateData ns rng itemsSchema p = Some (Inr ([v] ! k, Suc p))"
      unfolding k_def using ie _ one r' [of p] by (rule generateData_enum(1)) simp
    moreover have "k < length [v]"
      unfolding k_def using ie _ one r' [of p] by (rule generateData_enum(2)) simp
    then have "k = 0" by simp
    ultimately show ?thesis by (simp add: it)
  qed
  then have gen: "?gen = (\<lambda>p. Some (Inr (v, Suc p)))" by (simp add: fun_eq_iff)
  define n where "n = m + nat \<lfloor>round_double (rng pos * of_nat (M - m + 1))\<rfloor>"
  have n: "getRandomInteger rng (Finite (of_nat m)) (Finite (of_nat M)) pos = (Finite (of_nat n), Suc pos)"
    unfolding n_def using mM M53 r' [of pos] by (rule getRandomInteger_nat)
  have n2: "2 \<le> n" using m2 by (simp add: n_def)
  have stuck: "generateArray_loop ns (\<lambda>p. Some (Inr (v, Suc p))) True (Finite (of_nat n)) [v] p = None" for p
  proof (cases "generateArray_loop ns (\<lambda>p. Some (Inr (v, Suc p))) True (Finite (of_nat n)) [v] p")
    case None
    then show ?thesis .
  next
    case (Some y)
    have "False"
    proof (rule generateArray_loop_stuck [OF Some])
      show "\<forall>p. \<exists>p'. Some (Inr (v, Suc p)) = Some (Inr (v, p'))" by blast
      show True ..
      show "v \<in> set [v]" by simp
      show "num_less (Finite (of_nat (length [v]))) (Finite (of_nat n))" using n2 by simp
    qed
    then show ?thesis ..
  qed
  have "generateArray_loop ns ?gen True (Finite (of_nat n)) [] (Suc pos) = None"
    unfolding gen using n2 by (subst generateArray_loop.simps) (simp add: stuck)
  then have "generateArray ns rng schema pos = None"
    using m2 by (simp add: generateArray_eq [of m schema M] m M u n)
  then show ?thesis
    unfolding generateRandomData_def
    by (subst generateData.simps) (simp add: en ty)
qed

theorem generateRandomData_unique_never_returns_witness:
  "unit_draws (\<lambda>i. 1 / 2)
   \<and> generateRandomData (\<lambda>q. []) (\<lambda>i. 1 / 2)
     (Schema None (Some ''array'') None None None None (Some 2) (Some 2) (Some True)
        (Some (Schema (Some [JBool True]) (Some ''boolean'') None None None None None None None None None None))
        None None) 0
   = None"
  using generateRandomData_unique_never_returns
    [of "Schema None (Some ''array'') None None None None (Some 2) (Some 2) (Some True)
        (Some (Schema (Some [JBool True]) (Some ''boolean'') None None None None None None None None None None))
        None None"
        "Schema (Some [JBool True]) (Some ''boolean'') None None None None None None None None None None"
        "JBool True" 2 2 "\<lambda>i. 1 / 2" "\<lambda>q. []" 0]
  by (simp add: unit_draws_def)

section \<open>The schema is left as it was\<close>

text \<open>
  C9. Whatever a call of \<^verbatim>\<open>generateRandomData\<close> returns or throws, every cell that was in
  the store before the call is in it unchanged after the call: the input node, its nested
  nodes and the values of their attributes are among these cells, so every attribute of
  every node reads as before. The call only adds cells, and a returned value may refer to a
  cell of the schema, as the element of an \<^verbatim>\<open>enum\<close> does in the example.
\<close>

theorem generateRandomData_h_schema_unchanged:
  assumes run: "generateRandomData_h fuel ns rng schema h pos = Some (r, h', pos')"
  shows "length h \<le> length h' \<and> take (length h) h' = h
     \<and> (\<forall>a < length h. h' ! a = h ! a)
     \<and> (\<forall>a < length h. \<forall>name. get_property h' (HRef a) name = get_property h (HRef a) name)"
proof -
  from run have "generateData_h fuel ns rng schema h pos = Some (r, h', pos')"
    by (simp add: generateRandomData_h_def)
  then have "frame (length h) h h'"
    by (rule generate_h_frame [THEN conjunct1, rule_format]) simp
  then have len: "length h \<le> length h'" and tk: "take (length h) h' = h"
    by (simp_all add: frame_def)
  have nth: "h' ! a = h ! a" if "a < length h" for a
  proof -
    from that have "take (length h) h' ! a = h' ! a" by simp
    with tk show ?thesis by simp
  qed
  have "get_property h' (HRef a) name = get_property h (HRef a) name" if "a < length h" for a name
    using that nth [OF that] len by (simp add: get_property_def)
  with len tk nth show ?thesis by blast
qed

lemma generateRandomData_h_alias:
  "generateRandomData_h 5 (\<lambda>q. []) (\<lambda>i. 0) (HRef 0)
     [CObj [(''type'', HStr ''array''), (''minItems'', HNum (Finite 1)), (''maxItems'', HNum (Finite 1)), (''items'', HRef 1)],
      CObj [(''enum'', HRef 2)],
      CArr [HRef 3],
      CObj [(''role'', HStr ''admin'')]] 0
   = Some (Inr (HRef 4),
       [CObj [(''type'', HStr ''array''), (''minItems'', HNum (Finite 1)), (''maxItems'', HNum (Finite 1)), (''items'', HRef 1)],
      CObj [(''enum'', HRef 2)],
      CArr [HRef 3],
      CObj [(''role'', HStr ''admin'')],
      CArr [HRef 3]], 2)"
  by (simp add: generateRandomData_h_def eval_nat_numeral get_property_def truthy_def
      array_elements_def number_or_def getRandomInteger_def Math_random_def index_h_def push_def
      num_sub_def Let_def)

theorem generateRandomData_h_schema_unchanged_witness:
  "generateRandomData_h 5 (\<lambda>q. []) (\<lambda>i. 0) (HRef 0)
     [CObj [(''type'', HStr ''array''), (''minItems'', HNum (Finite 1)), (''maxItems'', HNum (Finite 1)), (''items'', HRef 1)],
      CObj [(''enum'', HRef 2)],
      CArr [HRef 3],
      CObj [(''role'', HStr ''admin'')]] 0
   = Some (Inr (HRef 4),
       [CObj [(''type'', HStr ''array''), (''minItems'', HNum (Finite 1)), (''maxItems'', HNum (Finite 1)), (''items'', HRef 1)],
      CObj [(''enum'', HRef 2)],
      CArr [HRef 3],
      CObj [(''role'', HStr ''admin'')],
      CArr [HRef 3]], 2)
   \<and> take 4 [CObj [(''type'', HStr ''array''), (''minItems'', HNum (Finite 1)), (''maxItems'', HNum (Finite 1)), (''items'', HRef 1)],
      CObj [(''enum'', HRef 2)],
      CArr [HRef 3],
      CObj [(''role'', HStr ''admin'')],
      CArr [HRef 3]]
     = [CObj [(''type'', HStr ''array''), (''minItems'', HNum (Finite 1)), (''maxItems'', HNum (Finite 1)), (''items'', HRef 1)],
      CObj [(''enum'', HRef 2)],
      CArr [HRef 3],
      CObj [(''role'', HStr ''admin'')]]"
  using generateRandomData_h_schema_unchanged [OF generateRandomData_h_alias]
    generateRandomData_h_alias
  by simp

end
